theory Spec2Isabelle
  imports Complex_Main "HOL-Library.AList" "HOL-Library.Char_ord" "HOL-Library.List_Lexorder"
    "HOL-Library.Product_Lexorder"
begin

section \<open>Python values and exceptions\<close>

text \<open>
  The scripts under \<^verbatim>\<open>src/CortexA7\<close> and \<^verbatim>\<open>src/CortexA15\<close> are modelled function by
  function. Python's unbounded \<^verbatim>\<open>int\<close> is \<^typ>\<open>int\<close>. Python's \<^verbatim>\<open>float\<close> is idealised as
  an exact rational (\<^typ>\<open>rat\<close>): a true division \<^verbatim>\<open>a / b\<close> is the exact quotient, it raises
  \<^verbatim>\<open>ZeroDivisionError\<close> when the divisor is zero, and the rounding, overflow and underflow
  of IEEE doubles are not modelled. Every \<^verbatim>\<open>raise\<close> is a value \<open>Inl e\<close>.
\<close>

datatype py_error =
  ZeroDivisionError
  | IndexError
  | ValueError string
  | FileNotFoundError string

definition truediv :: "rat \<Rightarrow> rat \<Rightarrow> py_error + rat" where
  "truediv a b = (if b = 0 then Inl ZeroDivisionError else Inr (a / b))"

section \<open>The points of a series\<close>

text \<open>
  \<^verbatim>\<open>plot_speedup_cortexA7.Point\<close> and \<^verbatim>\<open>plot_performance_cortexA15.Point\<close> share the fields
  \<^verbatim>\<open>threads\<close>, \<^verbatim>\<open>cycles\<close>, \<^verbatim>\<open>folder\<close>, \<^verbatim>\<open>speedup\<close> and \<^verbatim>\<open>efficiency\<close>; the first adds the three
  optional adjacency metrics, the second adds \<^verbatim>\<open>width\<close>.
\<close>

record point =
  threads :: int
  cycles :: int
  folder :: string
  speedup :: rat
  efficiency :: rat

record pointA7 = point +
  local_speedup :: "rat option"
  local_efficiency :: "rat option"
  marginal_efficiency :: "rat option"

record pointA15 = point +
  width :: int

text \<open>The constructor calls \<^verbatim>\<open>Point(threads=.., cycles=.., folder=..)\<close> with the dataclass defaults.\<close>

definition PointA7 :: "int \<Rightarrow> int \<Rightarrow> string \<Rightarrow> pointA7" where
  "PointA7 t c f =
     \<lparr>threads = t, cycles = c, folder = f, speedup = 0, efficiency = 0,
      local_speedup = None, local_efficiency = None, marginal_efficiency = None\<rparr>"

definition PointA15 :: "int \<Rightarrow> int \<Rightarrow> int \<Rightarrow> string \<Rightarrow> pointA15" where
  "PointA15 w t c f =
     \<lparr>threads = t, cycles = c, folder = f, speedup = 0, efficiency = 0, width = w\<rparr>"

section \<open>compute\_metrics\<close>

text \<open>
  \<^verbatim>\<open>baseline = next((p for p in points if p.threads == 1), points[0])\<close>: the default
  \<^verbatim>\<open>points[0]\<close> is evaluated before \<^verbatim>\<open>next\<close> runs, so an empty list raises \<^verbatim>\<open>IndexError\<close>.
\<close>

definition select_baseline :: "'a point_scheme list \<Rightarrow> py_error + 'a point_scheme" where
  "select_baseline points =
     (case points of
        [] \<Rightarrow> Inl IndexError
      | p0 # _ \<Rightarrow>
          Inr (case find (\<lambda>p. threads p = 1) points of Some b \<Rightarrow> b | None \<Rightarrow> p0))"

text \<open>
  The two assignments every point receives:
  \<^verbatim>\<open>point.speedup = baseline_cycles / point.cycles\<close> and
  \<^verbatim>\<open>point.efficiency = point.speedup / point.threads\<close>.
\<close>

definition set_speedup :: "int \<Rightarrow> 'a point_scheme \<Rightarrow> py_error + 'a point_scheme" where
  "set_speedup baseline_cycles p =
     (case truediv (of_int baseline_cycles) (of_int (cycles p)) of
        Inl e \<Rightarrow> Inl e
      | Inr s \<Rightarrow>
          (case truediv s (of_int (threads p)) of
             Inl e \<Rightarrow> Inl e
           | Inr eff \<Rightarrow> Inr (p\<lparr>speedup := s, efficiency := eff\<rparr>)))"

text \<open>
  The rest of the loop body of the Cortex-A7 \<^verbatim>\<open>compute_metrics\<close>, run when \<^verbatim>\<open>i != 0\<close>;
  \<open>prev\<close> is \<^verbatim>\<open>points[i - 1]\<close>, which the previous iteration has already updated.
\<close>

definition set_local :: "pointA7 \<Rightarrow> pointA7 \<Rightarrow> py_error + pointA7" where
  "set_local prev p =
     (let d_threads = threads p - threads prev in
      case truediv (of_int (cycles prev)) (of_int (cycles p)) of
        Inl e \<Rightarrow> Inl e
      | Inr ls \<Rightarrow>
          (case truediv (of_int (threads p)) (of_int (threads prev)) of
             Inl e \<Rightarrow> Inl e
           | Inr ratio \<Rightarrow>
               (case truediv ls ratio of
                  Inl e \<Rightarrow> Inl e
                | Inr le \<Rightarrow>
                    (case truediv (speedup p - speedup prev) (of_int d_threads) of
                       Inl e \<Rightarrow> Inl e
                     | Inr me \<Rightarrow>
                         Inr (p\<lparr>local_speedup := Some ls, local_efficiency := Some le,
                                marginal_efficiency := Some me\<rparr>)))))"

text \<open>
  \<^verbatim>\<open>for i, point in enumerate(points)\<close>: the loop walks the list once; \<open>prev\<close> is \<open>None\<close>
  exactly when \<^verbatim>\<open>i == 0\<close>. The first exception ends the loop.
\<close>

fun metrics_loop :: "int \<Rightarrow> pointA7 option \<Rightarrow> pointA7 list \<Rightarrow> py_error + pointA7 list" where
  "metrics_loop baseline_cycles prev [] = Inr []"
| "metrics_loop baseline_cycles prev (p # ps) =
     (case set_speedup baseline_cycles p of
        Inl e \<Rightarrow> Inl e
      | Inr p1 \<Rightarrow>
          (case (case prev of None \<Rightarrow> Inr p1 | Some q \<Rightarrow> set_local q p1) of
             Inl e \<Rightarrow> Inl e
           | Inr p2 \<Rightarrow>
               (case metrics_loop baseline_cycles (Some p2) ps of
                  Inl e \<Rightarrow> Inl e
                | Inr rest \<Rightarrow> Inr (p2 # rest))))"

definition compute_metrics :: "pointA7 list \<Rightarrow> py_error + pointA7 list" where
  "compute_metrics points =
     (case select_baseline points of
        Inl e \<Rightarrow> Inl e
      | Inr baseline \<Rightarrow> metrics_loop (cycles baseline) None points)"

text \<open>
  The Cortex-A15 \<^verbatim>\<open>compute_metrics\<close> groups the points by width in a dict (insertion
  ordered, here an association list), sorts every group by thread count (a stable sort)
  and sets speedup and efficiency against the baseline of the group.
\<close>

fun setdefault_append :: "int \<Rightarrow> 'v \<Rightarrow> (int \<times> 'v list) list \<Rightarrow> (int \<times> 'v list) list" where
  "setdefault_append k v [] = [(k, [v])]"
| "setdefault_append k v ((k', vs) # rest) =
     (if k = k' then (k', vs @ [v]) # rest else (k', vs) # setdefault_append k v rest)"

definition group_by_width :: "pointA15 list \<Rightarrow> (int \<times> pointA15 list) list" where
  "group_by_width points = foldl (\<lambda>grouped p. setdefault_append (width p) p grouped) [] points"

fun speedup_loop :: "int \<Rightarrow> 'a point_scheme list \<Rightarrow> py_error + 'a point_scheme list" where
  "speedup_loop baseline_cycles [] = Inr []"
| "speedup_loop baseline_cycles (p # ps) =
     (case set_speedup baseline_cycles p of
        Inl e \<Rightarrow> Inl e
      | Inr p1 \<Rightarrow>
          (case speedup_loop baseline_cycles ps of
             Inl e \<Rightarrow> Inl e
           | Inr rest \<Rightarrow> Inr (p1 # rest)))"

definition series_metrics :: "pointA15 list \<Rightarrow> py_error + pointA15 list" where
  "series_metrics vals0 =
     (let vals = sort_key threads vals0 in
      case select_baseline vals of
        Inl e \<Rightarrow> Inl e
      | Inr baseline \<Rightarrow> speedup_loop (cycles baseline) vals)"

fun groups_loop :: "(int \<times> pointA15 list) list \<Rightarrow> py_error + (int \<times> pointA15 list) list" where
  "groups_loop [] = Inr []"
| "groups_loop ((w, vals) # rest) =
     (case series_metrics vals of
        Inl e \<Rightarrow> Inl e
      | Inr vals' \<Rightarrow>
          (case groups_loop rest of
             Inl e \<Rightarrow> Inl e
           | Inr rest' \<Rightarrow> Inr ((w, vals') # rest')))"

definition compute_metrics_A15 :: "pointA15 list \<Rightarrow> py_error + (int \<times> pointA15 list) list" where
  "compute_metrics_A15 points = groups_loop (group_by_width points)"

section \<open>Text, lines and the recognition rules\<close>

text \<open>
  A line of a log file is a \<^typ>\<open>string\<close>. The files are ASCII, so the character classes of
  Python's \<^verbatim>\<open>re\<close> and \<^verbatim>\<open>str\<close> are the ASCII ones: \<^verbatim>\<open>\d\<close> is a decimal digit, \<^verbatim>\<open>\s\<close> and
  \<^verbatim>\<open>str.strip\<close> take the characters for which \<^verbatim>\<open>str.isspace\<close> holds (tab, line feed,
  vertical tab, form feed, carriage return, the four separators 0x1C to 0x1F and the space),
  and a word character is a letter, a digit or the underscore.
\<close>

definition is_digit :: "char \<Rightarrow> bool" where
  "is_digit c \<longleftrightarrow> c \<in> set ''0123456789''"

definition is_space :: "char \<Rightarrow> bool" where
  "is_space c \<longleftrightarrow>
     c \<in> set [CHR 0x09, CHR 0x0A, CHR 0x0B, CHR 0x0C, CHR 0x0D,
               CHR 0x1C, CHR 0x1D, CHR 0x1E, CHR 0x1F, CHR 0x20]"

definition is_word :: "char \<Rightarrow> bool" where
  "is_word c \<longleftrightarrow>
     is_digit c \<or> c = CHR ''_'' \<or>
     c \<in> set ''abcdefghijklmnopqrstuvwxyz'' \<or> c \<in> set ''ABCDEFGHIJKLMNOPQRSTUVWXYZ''"

definition strip :: "string \<Rightarrow> string" where
  "strip s = rev (dropWhile is_space (rev (dropWhile is_space s)))"

definition startswith :: "string \<Rightarrow> string \<Rightarrow> bool" where
  "startswith s pre \<longleftrightarrow> take (length pre) s = pre"

text \<open>\<^verbatim>\<open>int(...)\<close> of a string of decimal digits.\<close>

definition digit_val :: "char \<Rightarrow> int" where
  "digit_val c = int (of_char c) - 48"

definition int_of_digits :: "string \<Rightarrow> int" where
  "int_of_digits ds = foldl (\<lambda>n c. 10 * n + digit_val c) 0 ds"

text \<open>A literal at the start of the text: the rest of the text when it is there.\<close>

definition literal :: "string \<Rightarrow> string \<Rightarrow> string option" where
  "literal lit s = (if startswith s lit then Some (drop (length lit) s) else None)"

text \<open>
  The tail \<^verbatim>\<open>\s+(\d+)\b\<close> that ends every integer rule: one or more blanks, the longest
  run of digits, and a word boundary, which holds at the end of the text or before a
  character that is not a word character. A shorter run of digits would be followed by a
  digit, where there is no boundary, so backtracking finds no other match.
\<close>

definition boundary :: "string \<Rightarrow> bool" where
  "boundary s \<longleftrightarrow> (case s of [] \<Rightarrow> True | c # _ \<Rightarrow> \<not> is_word c)"

definition blanks_int :: "string \<Rightarrow> int option" where
  "blanks_int s =
     (let r = dropWhile is_space s; ds = takeWhile is_digit r in
      if takeWhile is_space s = [] \<or> ds = [] \<or> \<not> boundary (dropWhile is_digit r) then None
      else Some (int_of_digits ds))"

text \<open>
  The tail \<^verbatim>\<open>\s+(?P<value>\d+(?:\.\d+)?)\b\<close> of the IPC rule and \<^verbatim>\<open>float(...)\<close> of its
  group. When the fraction is there but no boundary follows it, the matcher backtracks and
  drops the fraction: the boundary then holds between the integer part and the dot.
\<close>

definition decimal_val :: "string \<Rightarrow> string \<Rightarrow> rat" where
  "decimal_val ds fs = of_int (int_of_digits ds) + of_int (int_of_digits fs) / 10 ^ length fs"

definition blanks_decimal :: "string \<Rightarrow> rat option" where
  "blanks_decimal s =
     (let r = dropWhile is_space s; ds = takeWhile is_digit r; t = dropWhile is_digit r in
      if takeWhile is_space s = [] \<or> ds = [] then None
      else
        (case literal ''.'' t of
           Some u \<Rightarrow>
             (let fs = takeWhile is_digit u in
              if fs \<noteq> [] \<and> boundary (dropWhile is_digit u) then Some (decimal_val ds fs)
              else Some (of_int (int_of_digits ds)))
         | None \<Rightarrow> if boundary t then Some (of_int (int_of_digits ds)) else None))"

text \<open>
  The rules, each applied with \<^verbatim>\<open>re.match\<close> to the stripped line.
  \<^verbatim>\<open>NUM_CYCLES_RE\<close> (\<^verbatim>\<open>CYC_RE\<close> in the IPC scripts) is
  \<^verbatim>\<open>^system\.cpu\d*\.numCycles\s+(\d+)\b\<close>; the five scripts write the optional core index
  as \<^verbatim>\<open>[0-9]*\<close>, \<^verbatim>\<open>(?:\d+)?\<close> or \<^verbatim>\<open>\d*\<close>, which accept the same texts.
\<close>

definition NUM_CYCLES_RE :: "string \<Rightarrow> int option" where
  "NUM_CYCLES_RE line =
     (case literal ''system.cpu'' line of
        None \<Rightarrow> None
      | Some r \<Rightarrow>
          (case literal ''.numCycles'' (dropWhile is_digit r) of
             None \<Rightarrow> None
           | Some r' \<Rightarrow> blanks_int r'))"

text \<open>\<^verbatim>\<open>CYC_RE\<close> of \<^verbatim>\<open>plot_ipc_max_cortexA7.py\<close> also captures the core index.\<close>

definition CYC_RE_cpu :: "string \<Rightarrow> (string \<times> int) option" where
  "CYC_RE_cpu line =
     (case literal ''system.cpu'' line of
        None \<Rightarrow> None
      | Some r \<Rightarrow>
          (case literal ''.numCycles'' (dropWhile is_digit r) of
             None \<Rightarrow> None
           | Some r' \<Rightarrow>
               (case blanks_int r' of
                  None \<Rightarrow> None
                | Some v \<Rightarrow> Some (takeWhile is_digit r, v))))"

definition IPC_RE :: "string \<Rightarrow> rat option" where
  "IPC_RE line =
     (case literal ''system.cpu'' line of
        None \<Rightarrow> None
      | Some r \<Rightarrow>
          (case literal ''.ipc'' (dropWhile is_digit r) of
             None \<Rightarrow> None
           | Some r' \<Rightarrow> blanks_decimal r'))"

definition SIM_INS_RE :: "string \<Rightarrow> int option" where
  "SIM_INS_RE line = (case literal ''sim_insts'' line of None \<Rightarrow> None | Some r \<Rightarrow> blanks_int r)"

definition SIM_TICKS_RE :: "string \<Rightarrow> int option" where
  "SIM_TICKS_RE line = (case literal ''sim_ticks'' line of None \<Rightarrow> None | Some r \<Rightarrow> blanks_int r)"

definition CPU_CLOCK_RE :: "string \<Rightarrow> int option" where
  "CPU_CLOCK_RE line =
     (case literal ''system.cpu_clk_domain.clock'' line of None \<Rightarrow> None | Some r \<Rightarrow> blanks_int r)"

definition SYS_CLOCK_RE :: "string \<Rightarrow> int option" where
  "SYS_CLOCK_RE line =
     (case literal ''system.clk_domain.clock'' line of None \<Rightarrow> None | Some r \<Rightarrow> blanks_int r)"

text \<open>
  \<^verbatim>\<open>max(xs)\<close> of a list that is not empty, and Python's \<^verbatim>\<open>round\<close>, which rounds a half
  to the even neighbour.
\<close>

definition py_max :: "'a::linorder list \<Rightarrow> 'a" where
  "py_max xs = foldl max (hd xs) (tl xs)"

definition py_round :: "rat \<Rightarrow> int" where
  "py_round q =
     (let f = \<lfloor>q\<rfloor>; d = q - of_int f in
      if d < 1 / 2 then f else if 1 / 2 < d then f + 1 else if even f then f else f + 1)"

section \<open>Parsing one log file\<close>

text \<open>
  What a script observes of a \<^verbatim>\<open>stats.txt\<close>: the path as \<^verbatim>\<open>str\<close> prints it (it only goes
  into messages), the size \<^verbatim>\<open>stat().st_size\<close>, and the lines that iterating over the open
  file yields.
\<close>

record stats_file =
  path :: string
  st_size :: nat
  text_lines :: "string list"

subsection \<open>parse\_cycles with the timing fallback\<close>

text \<open>
  \<^verbatim>\<open>parse_cycles\<close> of \<^verbatim>\<open>plot_performance_cortexA15.py\<close> and of \<^verbatim>\<open>plot_cycles_cortexA7.py\<close>
  run the same loop over the local variables \<^verbatim>\<open>cycles\<close> (\<^verbatim>\<open>cpu_cycles\<close>), \<^verbatim>\<open>sim_ticks\<close>,
  \<^verbatim>\<open>cpu_clock\<close> and \<^verbatim>\<open>sys_clock\<close>.
\<close>

record timing =
  cpu_cycles :: "int list"
  sim_ticks :: "int option"
  cpu_clock :: "int option"
  sys_clock :: "int option"

definition timing_init :: timing where
  "timing_init = \<lparr>cpu_cycles = [], sim_ticks = None, cpu_clock = None, sys_clock = None\<rparr>"

definition timing_line :: "string \<Rightarrow> timing \<Rightarrow> timing" where
  "timing_line raw_line st =
     (let line = strip raw_line in
      if line = [] then st
      else
        (case NUM_CYCLES_RE line of
           Some v \<Rightarrow> st\<lparr>cpu_cycles := cpu_cycles st @ [v]\<rparr>
         | None \<Rightarrow>
             (case (if sim_ticks st = None then SIM_TICKS_RE line else None) of
                Some v \<Rightarrow> st\<lparr>sim_ticks := Some v\<rparr>
              | None \<Rightarrow>
                  (case (if cpu_clock st = None then CPU_CLOCK_RE line else None) of
                     Some v \<Rightarrow> st\<lparr>cpu_clock := Some v\<rparr>
                   | None \<Rightarrow>
                       (case (if sys_clock st = None then SYS_CLOCK_RE line else None) of
                          Some v \<Rightarrow> st\<lparr>sys_clock := Some v\<rparr>
                        | None \<Rightarrow> st)))))"

definition timing_scan :: "string list \<Rightarrow> timing" where
  "timing_scan lines = fold timing_line lines timing_init"

text \<open>
  After the loop: the largest cycle count when there is one; otherwise
  \<^verbatim>\<open>int(round(sim_ticks / period))\<close> when \<^verbatim>\<open>sim_ticks\<close> was found and the period,
  \<^verbatim>\<open>cpu_clock if cpu_clock is not None else sys_clock\<close>, passes \<^verbatim>\<open>period and period > 0\<close>;
  otherwise nothing, and the caller raises.
\<close>

definition timing_cycles :: "timing \<Rightarrow> (int \<times> string) option" where
  "timing_cycles st =
     (if cpu_cycles st \<noteq> [] then Some (py_max (cpu_cycles st), ''max(system.cpu*.numCycles)'')
      else
        (case sim_ticks st of
           None \<Rightarrow> None
         | Some ticks \<Rightarrow>
             (case (case cpu_clock st of Some c \<Rightarrow> Some c | None \<Rightarrow> sys_clock st) of
                None \<Rightarrow> None
              | Some period \<Rightarrow>
                  if period \<noteq> 0 \<and> 0 < period
                  then Some (py_round (of_int ticks / of_int period), ''sim_ticks / clock_period'')
                  else None)))"

definition parse_cycles_A15 :: "stats_file \<Rightarrow> py_error + int" where
  "parse_cycles_A15 f =
     (case timing_cycles (timing_scan (text_lines f)) of
        Some (c, source) \<Rightarrow> Inr c
      | None \<Rightarrow>
          Inl (ValueError (''Impossible d'' @ [CHR 0x27] @ ''extraire les cycles depuis '' @ path f)))"

definition parse_cycles_A7 :: "stats_file \<Rightarrow> py_error + int \<times> string" where
  "parse_cycles_A7 f =
     (case timing_cycles (timing_scan (text_lines f)) of
        Some r \<Rightarrow> Inr r
      | None \<Rightarrow>
          Inl (ValueError (''Impossible d'' @ [CHR 0x27] @ ''extraire les cycles depuis stats.txt'')))"

subsection \<open>parse\_cycles of plot\_speedup\_cortexA7.py\<close>

definition parse_cycles_speedup :: "stats_file \<Rightarrow> py_error + int" where
  "parse_cycles_speedup f =
     (let cyc = List.map_filter (\<lambda>line. NUM_CYCLES_RE (strip line)) (text_lines f) in
      if cyc = [] then Inl (ValueError (''Aucune ligne numCycles trouvee dans '' @ path f))
      else Inr (py_max cyc))"

subsection \<open>parse\_stats of plot\_ipc\_cortexA15.py\<close>

text \<open>The loop over the local variables \<^verbatim>\<open>cycles\<close>, \<^verbatim>\<open>ipc_vals\<close> and \<^verbatim>\<open>sim_insts\<close>.\<close>

definition stats_line :: "string \<Rightarrow> int list \<times> rat list \<times> int \<Rightarrow> int list \<times> rat list \<times> int" where
  "stats_line line st =
     (case st of (cyc, ipc_vals, sim_insts) \<Rightarrow>
        (let txt = strip line in
         case NUM_CYCLES_RE txt of
           Some v \<Rightarrow> (cyc @ [v], ipc_vals, sim_insts)
         | None \<Rightarrow>
             (case IPC_RE txt of
                Some v \<Rightarrow> (cyc, ipc_vals @ [v], sim_insts)
              | None \<Rightarrow>
                  (case SIM_INS_RE txt of
                     Some v \<Rightarrow> (cyc, ipc_vals, v)
                   | None \<Rightarrow> (cyc, ipc_vals, sim_insts)))))"

definition stats_scan :: "string list \<Rightarrow> int list \<times> rat list \<times> int" where
  "stats_scan lines = fold stats_line lines ([], [], 0)"

text \<open>The result is the tuple \<^verbatim>\<open>(ipc_max, ipc_global, sim_insts, max_cycles)\<close>.\<close>

definition parse_stats :: "stats_file \<Rightarrow> py_error + rat \<times> rat \<times> int \<times> int" where
  "parse_stats f =
     (case stats_scan (text_lines f) of (cyc, ipc_vals, sim_insts) \<Rightarrow>
        if cyc = [] then Inl (ValueError (''Aucune ligne numCycles dans '' @ path f))
        else if ipc_vals = [] then Inl (ValueError (''Aucune ligne IPC dans '' @ path f))
        else if sim_insts \<le> 0 then Inl (ValueError (''Aucune valeur sim_insts valide dans '' @ path f))
        else
          (let max_cycles = py_max cyc in
           if max_cycles \<le> 0 then Inl (ValueError (''Aucun cycle valide dans '' @ path f))
           else Inr (py_max ipc_vals, of_int sim_insts / of_int max_cycles, sim_insts, max_cycles)))"

subsection \<open>parse\_config of plot\_ipc\_max\_cortexA7.py\<close>

text \<open>
  \<^verbatim>\<open>cycles\<close> is a dict from the core index to the cycle count (an association list, a later
  line of the same core overwriting the earlier one); the result is the tuple
  \<^verbatim>\<open>(ipc_global, sim_insts, max_cycles)\<close>.
\<close>

definition config_line :: "string \<Rightarrow> (string \<times> int) list \<times> int \<Rightarrow> (string \<times> int) list \<times> int" where
  "config_line line st =
     (case st of (cyc, sim_insts) \<Rightarrow>
        (let txt = strip line in
         case CYC_RE_cpu txt of
           Some (cpu, v) \<Rightarrow> (AList.update cpu v cyc, sim_insts)
         | None \<Rightarrow>
             (case SIM_INS_RE txt of
                Some v \<Rightarrow> (cyc, v)
              | None \<Rightarrow> (cyc, sim_insts))))"

definition config_scan :: "string list \<Rightarrow> (string \<times> int) list \<times> int" where
  "config_scan lines = fold config_line lines ([], 0)"

definition parse_config :: "stats_file \<Rightarrow> py_error + rat \<times> int \<times> int" where
  "parse_config f =
     (case config_scan (text_lines f) of (cyc, sim_insts) \<Rightarrow>
        if cyc = [] then Inl (ValueError (''Aucune ligne numCycles dans '' @ path f))
        else if sim_insts \<le> 0 then Inl (ValueError (''Aucune valeur sim_insts valide dans '' @ path f))
        else
          (let max_cycles = py_max (map snd cyc) in
           if max_cycles \<le> 0 then Inl (ValueError (''Aucun cycle valide dans '' @ path f))
           else Inr (of_int sim_insts / of_int max_cycles, sim_insts, max_cycles)))"

subsection \<open>The matches of a rule in a log\<close>

text \<open>
  The vocabulary of the statements about the parsers: the values a rule captures on the
  stripped lines of a log, in the order of the lines, and the first and the last of them.
\<close>

definition all_matches :: "(string \<Rightarrow> 'a option) \<Rightarrow> string list \<Rightarrow> 'a list" where
  "all_matches rule lines = List.map_filter (\<lambda>line. rule (strip line)) lines"

definition first_match :: "(string \<Rightarrow> 'a option) \<Rightarrow> string list \<Rightarrow> 'a option" where
  "first_match rule lines = (case all_matches rule lines of [] \<Rightarrow> None | v # _ \<Rightarrow> Some v)"

definition last_match :: "(string \<Rightarrow> 'a option) \<Rightarrow> string list \<Rightarrow> 'a option" where
  "last_match rule lines =
     (case all_matches rule lines of [] \<Rightarrow> None | v # vs \<Rightarrow> Some (last (v # vs)))"

subsection \<open>Log files for the examples\<close>

text \<open>
  The \<^verbatim>\<open>stats.txt\<close> at path \<open>p\<close> whose lines are \<open>ls\<close>, each ended by a line feed; the
  size is the number of characters.
\<close>

definition stats_of :: "string \<Rightarrow> string list \<Rightarrow> stats_file" where
  "stats_of p ls =
     \<lparr>path = p, st_size = length (concat (map (\<lambda>l. l @ [CHR 0x0A]) ls)),
      text_lines = map (\<lambda>l. l @ [CHR 0x0A]) ls\<rparr>"

section \<open>Scanning the configuration directories\<close>

text \<open>
  What a scanner observes of one entry of the root directory: its name, whether it is a
  directory, the text of its \<^verbatim>\<open>STATUS.txt\<close> when that file exists, and its \<^verbatim>\<open>stats.txt\<close>
  when that file exists. The root directory is the list of its entries in the order
  \<^verbatim>\<open>iterdir()\<close> yields them, or \<open>None\<close> when the root does not exist.
\<close>

record entry =
  name :: string
  is_dir :: bool
  STATUS_txt :: "string option"
  stats_txt :: "stats_file option"

subsection \<open>The naming grammars\<close>

text \<open>
  \<^verbatim>\<open>$\<close> holds at the end of the name and before a line feed that ends it.
\<close>

definition at_end :: "string \<Rightarrow> bool" where
  "at_end r \<longleftrightarrow> r = [] \<or> r = [CHR 0x0A]"

text \<open>
  \<^verbatim>\<open>^t(?P<threads>\d+)(?:_cpus(?P<cpus>\d+))?\<close> followed by a tail: \<^verbatim>\<open>_\<close> in
  \<^verbatim>\<open>plot_speedup_cortexA7.py\<close>, \<^verbatim>\<open>(?:_|$)\<close> in \<^verbatim>\<open>plot_cycles_cortexA7.py\<close>. The result is
  the pair of the groups \<^verbatim>\<open>threads\<close> and \<^verbatim>\<open>cpus\<close>. When the optional group matches but the tail
  does not follow it, the matcher backtracks and tries the tail right after the threads.
\<close>

definition t_cpus_rule :: "(string \<Rightarrow> bool) \<Rightarrow> string \<Rightarrow> (string \<times> string option) option" where
  "t_cpus_rule tail s =
     (case literal ''t'' s of
        None \<Rightarrow> None
      | Some r \<Rightarrow>
          (let ds = takeWhile is_digit r; r1 = dropWhile is_digit r in
           if ds = [] then None
           else
             (case literal ''_cpus'' r1 of
                Some r2 \<Rightarrow>
                  if takeWhile is_digit r2 \<noteq> [] \<and> tail (dropWhile is_digit r2)
                  then Some (ds, Some (takeWhile is_digit r2))
                  else if tail r1 then Some (ds, None) else None
              | None \<Rightarrow> if tail r1 then Some (ds, None) else None)))"

definition DIR_RE_speedup :: "string \<Rightarrow> (string \<times> string option) option" where
  "DIR_RE_speedup = t_cpus_rule (\<lambda>r. startswith r ''_'')"

definition DIR_RE_cycles :: "string \<Rightarrow> (string \<times> string option) option" where
  "DIR_RE_cycles = t_cpus_rule (\<lambda>r. startswith r ''_'' \<or> at_end r)"

text \<open>
  \<^verbatim>\<open>DIR_PATTERNS\<close> of \<^verbatim>\<open>plot_performance_cortexA15.py\<close>: \<^verbatim>\<open>^w(?P<width>\d+)_t(?P<threads>\d+)$\<close>
  (also \<^verbatim>\<open>DIR_RE\<close> of \<^verbatim>\<open>plot_ipc_cortexA15.py\<close>) and
  \<^verbatim>\<open>^t(?P<threads>\d+)_w(?P<width>\d+)(?:_|$)\<close>. Both give the groups (width, threads).
\<close>

definition w_t_rule :: "string \<Rightarrow> (string \<times> string) option" where
  "w_t_rule s =
     (case literal ''w'' s of
        None \<Rightarrow> None
      | Some r \<Rightarrow>
          (case literal ''_t'' (dropWhile is_digit r) of
             None \<Rightarrow> None
           | Some r' \<Rightarrow>
               if takeWhile is_digit r \<noteq> [] \<and> takeWhile is_digit r' \<noteq> [] \<and>
                  at_end (dropWhile is_digit r')
               then Some (takeWhile is_digit r, takeWhile is_digit r')
               else None))"

definition t_w_rule :: "string \<Rightarrow> (string \<times> string) option" where
  "t_w_rule s =
     (case literal ''t'' s of
        None \<Rightarrow> None
      | Some r \<Rightarrow>
          (case literal ''_w'' (dropWhile is_digit r) of
             None \<Rightarrow> None
           | Some r' \<Rightarrow>
               if takeWhile is_digit r \<noteq> [] \<and> takeWhile is_digit r' \<noteq> [] \<and>
                  (startswith (dropWhile is_digit r') ''_'' \<or> at_end (dropWhile is_digit r'))
               then Some (takeWhile is_digit r', takeWhile is_digit r)
               else None))"

text \<open>\<^verbatim>\<open>parse_dir_name\<close>: the first pattern that matches wins; the result is (width, threads).\<close>

definition parse_dir_name :: "string \<Rightarrow> (int \<times> int) option" where
  "parse_dir_name s =
     (case w_t_rule s of
        Some (w, t) \<Rightarrow> Some (int_of_digits w, int_of_digits t)
      | None \<Rightarrow>
          (case t_w_rule s of
             Some (w, t) \<Rightarrow> Some (int_of_digits w, int_of_digits t)
           | None \<Rightarrow> None))"

subsection \<open>The loop over the entries\<close>

text \<open>
  One iteration of a scanner's \<^verbatim>\<open>for entry in sorted(...)\<close> loop ends in one of four ways:
  \<^verbatim>\<open>continue\<close> without a trace, a warning appended, a point appended, or an exception that
  the \<^verbatim>\<open>except ValueError\<close> clause does not catch and that leaves the loop.
\<close>

datatype 'p outcome = Skip | Warn string | Found 'p | Raised py_error

fun collect_loop ::
  "('e \<Rightarrow> 'p outcome) \<Rightarrow> 'e list \<Rightarrow> 'p list \<Rightarrow> string list \<Rightarrow> py_error + 'p list \<times> string list"
where
  "collect_loop visit [] points warnings = Inr (points, warnings)"
| "collect_loop visit (e # es) points warnings =
     (case visit e of
        Skip \<Rightarrow> collect_loop visit es points warnings
      | Warn w \<Rightarrow> collect_loop visit es points (warnings @ [w])
      | Found p \<Rightarrow> collect_loop visit es (points @ [p]) warnings
      | Raised x \<Rightarrow> Inl x)"

subsection \<open>collect\_points of plot\_speedup\_cortexA7.py\<close>

definition visit_speedup :: "entry \<Rightarrow> pointA7 outcome" where
  "visit_speedup e =
     (if \<not> is_dir e then Skip
      else
        (case DIR_RE_speedup (name e) of
           None \<Rightarrow> Skip
         | Some (t, cpus) \<Rightarrow>
             (let thr = int_of_digits (case cpus of Some c \<Rightarrow> c | None \<Rightarrow> t) in
              case stats_txt e of
                None \<Rightarrow> Warn (name e @ '': stats.txt absent'')
              | Some f \<Rightarrow>
                  if st_size f = 0 then Warn (name e @ '': stats.txt vide'')
                  else
                    (case parse_cycles_speedup f of
                       Inr c \<Rightarrow> Found (PointA7 thr c (name e))
                     | Inl (ValueError m) \<Rightarrow> Warn m
                     | Inl x \<Rightarrow> Raised x))))"

definition collect_points :: "string \<Rightarrow> entry list option \<Rightarrow> py_error + pointA7 list \<times> string list" where
  "collect_points input_root listing =
     (case listing of
        None \<Rightarrow> Inl (FileNotFoundError (''Dossier introuvable: '' @ input_root))
      | Some entries \<Rightarrow>
          (case collect_loop visit_speedup (sort_key name entries) [] [] of
             Inl x \<Rightarrow> Inl x
           | Inr (points, warnings) \<Rightarrow> Inr (sort_key threads points, warnings)))"

subsection \<open>collect\_data of plot\_cycles\_cortexA7.py\<close>

text \<open>The points are the tuples \<^verbatim>\<open>(cpus, cycles, entry.name)\<close>; the \<^verbatim>\<open>print\<close> is left out.\<close>

definition visit_cycles :: "entry \<Rightarrow> (int \<times> int \<times> string) outcome" where
  "visit_cycles e =
     (if \<not> is_dir e then Skip
      else
        (case DIR_RE_cycles (name e) of
           None \<Rightarrow> Skip
         | Some (t, cpus_group) \<Rightarrow>
             (let cpus = (case cpus_group of Some c \<Rightarrow> int_of_digits c | None \<Rightarrow> int_of_digits t) in
              case stats_txt e of
                None \<Rightarrow> Warn (name e @ '': stats.txt absent'')
              | Some f \<Rightarrow>
                  if st_size f = 0 then Warn (name e @ '': stats.txt vide'')
                  else
                    (case parse_cycles_A7 f of
                       Inr (c, source) \<Rightarrow> Found (cpus, c, name e)
                     | Inl (ValueError m) \<Rightarrow> Warn (name e @ '': '' @ m)
                     | Inl x \<Rightarrow> Raised x))))"

definition collect_data ::
  "string \<Rightarrow> entry list option \<Rightarrow> py_error + (int \<times> int \<times> string) list \<times> string list" where
  "collect_data input_root listing =
     (case listing of
        None \<Rightarrow> Inl (FileNotFoundError (''Dossier introuvable: '' @ input_root))
      | Some entries \<Rightarrow>
          (case collect_loop visit_cycles (sort_key name entries) [] [] of
             Inl x \<Rightarrow> Inl x
           | Inr (points, warnings) \<Rightarrow> Inr (sort_key fst points, warnings)))"

subsection \<open>collect\_points of plot\_performance\_cortexA15.py\<close>

definition visit_performance :: "int option \<Rightarrow> entry \<Rightarrow> pointA15 outcome" where
  "visit_performance max_threads e =
     (if \<not> is_dir e then Skip
      else
        (case parse_dir_name (name e) of
           None \<Rightarrow> Skip
         | Some (w, t) \<Rightarrow>
             if (case max_threads of None \<Rightarrow> False | Some m \<Rightarrow> m < t) then Skip
             else if (case STATUS_txt e of
                        None \<Rightarrow> False
                      | Some content \<Rightarrow> \<not> startswith (strip content) ''OK'')
             then Warn (name e @ '': ignore ('' @ strip (the (STATUS_txt e)) @ '')'')
             else
               (case stats_txt e of
                  None \<Rightarrow> Warn (name e @ '': stats.txt absent'')
                | Some f \<Rightarrow>
                    if st_size f = 0 then Warn (name e @ '': stats.txt vide'')
                    else
                      (case parse_cycles_A15 f of
                         Inr c \<Rightarrow> Found (PointA15 w t c (name e))
                       | Inl (ValueError m) \<Rightarrow> Warn m
                       | Inl x \<Rightarrow> Raised x))))"

definition collect_points_A15 ::
  "string \<Rightarrow> entry list option \<Rightarrow> int option \<Rightarrow> py_error + pointA15 list \<times> string list" where
  "collect_points_A15 input_root listing max_threads =
     (case listing of
        None \<Rightarrow> Inl (FileNotFoundError (''Dossier introuvable: '' @ input_root))
      | Some entries \<Rightarrow>
          (case collect_loop (visit_performance max_threads) (sort_key name entries) [] [] of
             Inl x \<Rightarrow> Inl x
           | Inr (points, warnings) \<Rightarrow>
               Inr (sort_key (\<lambda>p. (width p, threads p)) points, warnings)))"

subsection \<open>collect of plot\_ipc\_cortexA15.py\<close>

text \<open>
  \<^verbatim>\<open>plot_ipc_cortexA15.Point\<close>; its fields \<^verbatim>\<open>width\<close>, \<^verbatim>\<open>threads\<close> and \<^verbatim>\<open>folder\<close> carry the
  prefix \<open>ipc_\<close> here, the plain names being those of the records above.
\<close>

record ipc_point =
  simulation :: string
  ipc_width :: int
  ipc_threads :: int
  ipc_max :: rat
  ipc_global :: rat
  sim_insts :: int
  max_cycles :: int
  ipc_folder :: string

definition visit_ipc :: "string \<Rightarrow> int option \<Rightarrow> entry \<Rightarrow> ipc_point outcome" where
  "visit_ipc sim max_threads e =
     (if \<not> is_dir e then Skip
      else
        (case w_t_rule (name e) of
           None \<Rightarrow> Skip
         | Some (w, t) \<Rightarrow>
             if (case max_threads of None \<Rightarrow> False | Some m \<Rightarrow> m < int_of_digits t) then Skip
             else if (case STATUS_txt e of
                        None \<Rightarrow> False
                      | Some content \<Rightarrow> \<not> startswith (strip content) ''OK'')
             then Warn (sim @ ''/'' @ name e @ '': ignore ('' @ strip (the (STATUS_txt e)) @ '')'')
             else
               (case stats_txt e of
                  None \<Rightarrow> Warn (sim @ ''/'' @ name e @ '': stats.txt absent'')
                | Some f \<Rightarrow>
                    if st_size f = 0 then Warn (sim @ ''/'' @ name e @ '': stats.txt vide'')
                    else
                      (case parse_stats f of
                         Inr (imax, iglobal, insts, mcycles) \<Rightarrow>
                           Found \<lparr>simulation = sim, ipc_width = int_of_digits w,
                                  ipc_threads = int_of_digits t, ipc_max = imax,
                                  ipc_global = iglobal, sim_insts = insts, max_cycles = mcycles,
                                  ipc_folder = name e\<rparr>
                       | Inl (ValueError m) \<Rightarrow> Warn (sim @ ''/'' @ name e @ '': '' @ m)
                       | Inl x \<Rightarrow> Raised x))))"

text \<open>A root that does not exist gives no point and one warning; it is not an error here.\<close>

definition collect ::
  "string \<Rightarrow> entry list option \<Rightarrow> string \<Rightarrow> int option \<Rightarrow> py_error + ipc_point list \<times> string list" where
  "collect root_dir listing sim max_threads =
     (case listing of
        None \<Rightarrow> Inr ([], [root_dir @ '': dossier absent''])
      | Some entries \<Rightarrow>
          (case collect_loop (visit_ipc sim max_threads) (sort_key name entries) [] [] of
             Inl x \<Rightarrow> Inl x
           | Inr (points, warnings) \<Rightarrow>
               Inr (sort_key (\<lambda>p. (ipc_width p, ipc_threads p)) points, warnings)))"

subsection \<open>What a loop collects\<close>

text \<open>
  The vocabulary of the statements about the scanners: the points and the warnings that the
  iterations over a list of entries produce, in the order of the entries.
\<close>

definition points_of :: "('e \<Rightarrow> 'p outcome) \<Rightarrow> 'e list \<Rightarrow> 'p list" where
  "points_of visit es = List.map_filter (\<lambda>e. case visit e of Found p \<Rightarrow> Some p | _ \<Rightarrow> None) es"

definition warnings_of :: "('e \<Rightarrow> 'p outcome) \<Rightarrow> 'e list \<Rightarrow> string list" where
  "warnings_of visit es = List.map_filter (\<lambda>e. case visit e of Warn w \<Rightarrow> Some w | _ \<Rightarrow> None) es"

subsection \<open>Directories for the examples\<close>

text \<open>
  A configuration directory \<open>n\<close> of the root \<^verbatim>\<open>.\<close>, with the text of its \<^verbatim>\<open>STATUS.txt\<close> (if
  any) and the lines of its \<^verbatim>\<open>stats.txt\<close>.
\<close>

definition config_dir :: "string \<Rightarrow> string option \<Rightarrow> string list \<Rightarrow> entry" where
  "config_dir n status ls =
     \<lparr>name = n, is_dir = True, STATUS_txt = status,
      stats_txt = Some (stats_of (n @ ''/stats.txt'') ls)\<rparr>"

section \<open>Properties of compute\_metrics\<close>

lemma truediv_Inr: "truediv a b = Inr q \<longleftrightarrow> b \<noteq> 0 \<and> q = a / b"
  by (auto simp: truediv_def)

lemma set_speedup_Inr:
  "set_speedup bc p = Inr p' \<longleftrightarrow>
     cycles p \<noteq> 0 \<and> threads p \<noteq> 0 \<and>
     p' = p\<lparr>speedup := of_int bc / of_int (cycles p),
            efficiency := of_int bc / of_int (cycles p) / of_int (threads p)\<rparr>"
  by (auto simp: set_speedup_def truediv_def)

lemma set_speedup_Inl: "set_speedup bc p = Inl e \<Longrightarrow> e = ZeroDivisionError"
  by (auto simp: set_speedup_def truediv_def split: if_splits)

lemma set_local_Inr:
  "set_local q p = Inr p' \<longleftrightarrow>
     cycles p \<noteq> 0 \<and> threads q \<noteq> 0 \<and> threads p \<noteq> 0 \<and> threads p \<noteq> threads q \<and>
     p' = p\<lparr>local_speedup := Some (of_int (cycles q) / of_int (cycles p)),
            local_efficiency :=
              Some (of_int (cycles q) / of_int (cycles p) / (of_int (threads p) / of_int (threads q))),
            marginal_efficiency :=
              Some ((speedup p - speedup q) / of_int (threads p - threads q))\<rparr>"
  by (auto simp: set_local_def truediv_def Let_def)

lemma set_local_Inl: "set_local q p = Inl e \<Longrightarrow> e = ZeroDivisionError"
  by (auto simp: set_local_def truediv_def Let_def split: if_splits)

lemma metrics_loop_Inl: "metrics_loop bc prev ps = Inl e \<Longrightarrow> e = ZeroDivisionError"
  by (induction ps arbitrary: prev)
     (auto split: sum.splits option.splits dest: set_speedup_Inl set_local_Inl)

lemma metrics_loop_length: "metrics_loop bc prev ps = Inr res \<Longrightarrow> length res = length ps"
  by (induction ps arbitrary: prev res) (auto split: sum.splits option.splits)

lemma metrics_loop_fields:
  "metrics_loop bc prev ps = Inr res \<Longrightarrow> i < length ps \<Longrightarrow>
     threads (res ! i) = threads (ps ! i) \<and> cycles (res ! i) = cycles (ps ! i) \<and>
     folder (res ! i) = folder (ps ! i) \<and>
     speedup (res ! i) = of_int bc / of_int (cycles (ps ! i)) \<and>
     efficiency (res ! i) = of_int bc / of_int (cycles (ps ! i)) / of_int (threads (ps ! i))"
proof (induction ps arbitrary: prev res i)
  case Nil
  then show ?case by simp
next
  case (Cons p ps)
  from Cons.prems(1) obtain p1 p2 rest where
    p1: "set_speedup bc p = Inr p1" and
    p2: "(case prev of None \<Rightarrow> Inr p1 | Some q \<Rightarrow> set_local q p1) = Inr p2" and
    rest: "metrics_loop bc (Some p2) ps = Inr rest" and res: "res = p2 # rest"
    by (auto split: sum.splits)
  have h: "threads p2 = threads p \<and> cycles p2 = cycles p \<and> folder p2 = folder p \<and>
     speedup p2 = of_int bc / of_int (cycles p) \<and>
     efficiency p2 = of_int bc / of_int (cycles p) / of_int (threads p)"
    using p1 p2 by (auto simp: set_speedup_Inr set_local_Inr split: option.splits)
  show ?case
  proof (cases i)
    case 0
    then show ?thesis using h res by simp
  next
    case (Suc j)
    then show ?thesis using Cons.IH [OF rest, of j] Cons.prems(2) res by simp
  qed
qed

lemma metrics_loop_head_Some:
  "metrics_loop bc (Some q) (p # ps) = Inr res \<Longrightarrow>
     local_speedup (res ! 0) = Some (of_int (cycles q) / of_int (cycles p)) \<and>
     local_efficiency (res ! 0) =
       Some (of_int (cycles q) / of_int (cycles p) / (of_int (threads p) / of_int (threads q))) \<and>
     marginal_efficiency (res ! 0) =
       Some ((of_int bc / of_int (cycles p) - speedup q) / of_int (threads p - threads q))"
  by (auto simp: set_speedup_Inr set_local_Inr split: sum.splits)

lemma metrics_loop_head_None:
  "metrics_loop bc None (p # ps) = Inr res \<Longrightarrow>
     local_speedup (res ! 0) = local_speedup p \<and>
     local_efficiency (res ! 0) = local_efficiency p \<and>
     marginal_efficiency (res ! 0) = marginal_efficiency p"
  by (auto simp: set_speedup_Inr split: sum.splits)

lemma metrics_loop_adjacent:
  "metrics_loop bc prev ps = Inr res \<Longrightarrow> Suc i < length ps \<Longrightarrow>
     local_speedup (res ! Suc i) = Some (of_int (cycles (ps ! i)) / of_int (cycles (ps ! Suc i))) \<and>
     local_efficiency (res ! Suc i) =
       Some (of_int (cycles (ps ! i)) / of_int (cycles (ps ! Suc i)) /
             (of_int (threads (ps ! Suc i)) / of_int (threads (ps ! i)))) \<and>
     marginal_efficiency (res ! Suc i) =
       Some ((speedup (res ! Suc i) - speedup (res ! i)) /
             of_int (threads (ps ! Suc i) - threads (ps ! i)))"
proof (induction ps arbitrary: prev res i)
  case Nil
  then show ?case by simp
next
  case (Cons p ps)
  from Cons.prems(1) obtain p1 p2 rest where
    p1: "set_speedup bc p = Inr p1" and
    p2: "(case prev of None \<Rightarrow> Inr p1 | Some q \<Rightarrow> set_local q p1) = Inr p2" and
    rest: "metrics_loop bc (Some p2) ps = Inr rest" and res: "res = p2 # rest"
    by (auto split: sum.splits)
  have h: "threads p2 = threads p \<and> cycles p2 = cycles p"
    using p1 p2 by (auto simp: set_speedup_Inr set_local_Inr split: option.splits)
  show ?case
  proof (cases i)
    case 0
    with Cons.prems(2) obtain a as where ps: "ps = a # as" by (cases ps) auto
    have sp: "speedup (rest ! 0) = of_int bc / of_int (cycles a)"
      using metrics_loop_fields [OF rest, of 0] ps by simp
    show ?thesis
      using metrics_loop_head_Some [OF rest [unfolded ps]] h sp 0 res ps by simp
  next
    case (Suc j)
    then show ?thesis using Cons.IH [OF rest, of j] Cons.prems(2) res by simp
  qed
qed

lemma metrics_loop_returns:
  "(\<exists>res. metrics_loop bc prev ps = Inr res) \<longleftrightarrow>
     (\<forall>p \<in> set ps. cycles p \<noteq> 0 \<and> threads p \<noteq> 0) \<and> distinct_adj (map threads ps) \<and>
     (case prev of None \<Rightarrow> True
      | Some q \<Rightarrow> ps = [] \<or> (threads q \<noteq> 0 \<and> threads q \<noteq> threads (hd ps)))"
proof (induction ps arbitrary: prev)
  case Nil
  then show ?case by (simp split: option.splits)
next
  case (Cons p ps)
  show ?case
  proof (cases "set_speedup bc p")
    case (Inl e)
    then have "cycles p = 0 \<or> threads p = 0"
      using set_speedup_Inr [of bc p] by (metis sum.distinct(1))
    then show ?thesis using Inl by auto
  next
    case (Inr p1)
    then have p1: "cycles p \<noteq> 0" "threads p \<noteq> 0" "threads p1 = threads p" "cycles p1 = cycles p"
      by (auto simp: set_speedup_Inr)
    show ?thesis
    proof (cases "case prev of None \<Rightarrow> Inr p1 | Some q \<Rightarrow> set_local q p1")
      case (Inl e)
      then obtain q where q: "prev = Some q" "set_local q p1 = Inl e"
        by (auto split: option.splits)
      then have "\<not> (threads q \<noteq> 0 \<and> threads q \<noteq> threads p)"
        using set_local_Inr [of q p1] p1 by (metis sum.distinct(1))
      then show ?thesis using Inl Inr q by auto
    next
      case p2: (Inr p2)
      then have h: "threads p2 = threads p" "prev = None \<or> (\<exists>q. prev = Some q \<and> threads q \<noteq> 0 \<and> threads q \<noteq> threads p)"
        using p1 by (auto simp: set_local_Inr split: option.splits)
      have "(\<exists>res. metrics_loop bc prev (p # ps) = Inr res) \<longleftrightarrow> (\<exists>rest. metrics_loop bc (Some p2) ps = Inr rest)"
        using Inr p2 by (auto split: sum.splits)
      also have "\<dots> \<longleftrightarrow> (\<forall>p \<in> set ps. cycles p \<noteq> 0 \<and> threads p \<noteq> 0) \<and> distinct_adj (map threads ps) \<and>
           (ps = [] \<or> (threads p2 \<noteq> 0 \<and> threads p2 \<noteq> threads (hd ps)))"
        using Cons.IH [of "Some p2"] by simp
      finally show ?thesis using h p1
        by (cases ps) (auto simp: distinct_adj_Cons)
    qed
  qed
qed

lemma sorted_distinct_adj: "sorted (xs::int list) \<Longrightarrow> distinct_adj xs \<Longrightarrow> distinct xs"
proof (induction xs)
  case Nil
  then show ?case by simp
next
  case (Cons x xs)
  show ?case
  proof (cases xs)
    case Nil
    then show ?thesis by simp
  next
    case (Cons y ys)
    with Cons.prems have "x < y" "\<forall>z \<in> set xs. y \<le> z" by auto
    then have "x \<notin> set xs" by auto
    then show ?thesis using Cons.IH Cons.prems by (auto simp: distinct_adj_Cons local.Cons)
  qed
qed

lemma speedup_loop_Inl: "speedup_loop bc ps = Inl e \<Longrightarrow> e = ZeroDivisionError"
  by (induction ps) (auto split: sum.splits dest: set_speedup_Inl)

lemma speedup_loop_Inr:
  "speedup_loop bc ps = Inr res \<longleftrightarrow>
     (\<forall>p \<in> set ps. cycles p \<noteq> 0 \<and> threads p \<noteq> 0) \<and>
     res = map (\<lambda>p. p\<lparr>speedup := of_int bc / of_int (cycles p),
                       efficiency := of_int bc / of_int (cycles p) / of_int (threads p)\<rparr>) ps"
proof (induction ps arbitrary: res)
  case Nil
  then show ?case by auto
next
  case (Cons p ps)
  let ?f = "\<lambda>p. p\<lparr>speedup := of_int bc / of_int (cycles p),
                    efficiency := of_int bc / of_int (cycles p) / of_int (threads p)\<rparr>"
  show ?case
  proof (cases "set_speedup bc p")
    case (Inl e)
    then have "cycles p = 0 \<or> threads p = 0"
      using set_speedup_Inr [of bc p] by (metis sum.distinct(1))
    then show ?thesis using Inl by auto
  next
    case p1: (Inr p1)
    then have ok: "cycles p \<noteq> 0" "threads p \<noteq> 0" and p1eq: "p1 = ?f p"
      by (simp_all add: set_speedup_Inr)
    show ?thesis
    proof (cases "speedup_loop bc ps")
      case (Inl e)
      then have "\<not> (\<forall>p \<in> set ps. cycles p \<noteq> 0 \<and> threads p \<noteq> 0)"
        using Cons.IH [of "map ?f ps"] by simp
      then show ?thesis using Inl p1 by simp
    next
      case (Inr rest)
      then have "(\<forall>p \<in> set ps. cycles p \<noteq> 0 \<and> threads p \<noteq> 0)" "rest = map ?f ps"
        using Cons.IH [of rest] by simp_all
      then show ?thesis using Inr p1 ok p1eq by auto
    qed
  qed
qed

lemma setdefault_append_keys:
  "map fst (setdefault_append k v g) = (if k \<in> fst ` set g then map fst g else map fst g @ [k])"
  by (induction g) (fastforce simp: image_iff)+

lemma setdefault_append_distinct:
  "distinct (map fst g) \<Longrightarrow> distinct (map fst (setdefault_append k v g))"
  by (simp add: setdefault_append_keys)

lemma map_of_setdefault_append:
  "map_of (setdefault_append k v g) =
     (map_of g)(k \<mapsto> (case map_of g k of None \<Rightarrow> [v] | Some vs \<Rightarrow> vs @ [v]))"
  by (induction g) (auto simp: fun_eq_iff)

lemma foldl_setdefault_append:
  "distinct (map fst g) \<Longrightarrow>
   distinct (map fst (foldl (\<lambda>grouped p. setdefault_append (width p) p grouped) g ps)) \<and>
   map_of (foldl (\<lambda>grouped p. setdefault_append (width p) p grouped) g ps) w =
     (case map_of g w of
        None \<Rightarrow> (if filter (\<lambda>p. width p = w) ps = [] then None
                  else Some (filter (\<lambda>p. width p = w) ps))
      | Some us \<Rightarrow> Some (us @ filter (\<lambda>p. width p = w) ps))"
proof (induction ps arbitrary: g)
  case Nil
  then show ?case by (simp split: option.splits)
next
  case (Cons p ps)
  have d: "distinct (map fst (setdefault_append (width p) p g))"
    using Cons.prems by (rule setdefault_append_distinct)
  show ?case
    using Cons.IH [OF d] by (auto simp: map_of_setdefault_append split: option.splits)
qed

lemma group_by_width_iff:
  "(w, vs) \<in> set (group_by_width points) \<longleftrightarrow>
     vs = filter (\<lambda>p. width p = w) points \<and> vs \<noteq> []"
proof -
  let ?g = "group_by_width points"
  have d: "distinct (map fst ?g)" and
    m: "map_of ?g w = (if filter (\<lambda>p. width p = w) points = [] then None
                       else Some (filter (\<lambda>p. width p = w) points))"
    using foldl_setdefault_append [of "[]" points w] by (simp_all add: group_by_width_def)
  have "(w, vs) \<in> set ?g \<longleftrightarrow> map_of ?g w = Some vs"
    using d by simp
  then show ?thesis using m by auto
qed

lemma groups_loop_Inr:
  "groups_loop g = Inr g' \<Longrightarrow> (w, vs') \<in> set g' \<Longrightarrow>
     \<exists>vals. (w, vals) \<in> set g \<and> series_metrics vals = Inr vs'"
proof (induction g arbitrary: g')
  case Nil
  then show ?case by simp
next
  case (Cons a g)
  obtain w0 vals0 where a: "a = (w0, vals0)" by (cases a)
  from Cons.prems(1) obtain v r where
    v: "series_metrics vals0 = Inr v" and r: "groups_loop g = Inr r" and g': "g' = (w0, v) # r"
    by (auto simp: a split: sum.splits)
  show ?case
  proof (cases "(w, vs') = (w0, v)")
    case True
    then show ?thesis using v a by auto
  next
    case False
    then have "(w, vs') \<in> set r" using Cons.prems(2) g' by auto
    then show ?thesis using Cons.IH [OF r] by auto
  qed
qed

lemma groups_loop_widths: "groups_loop g = Inr g' \<Longrightarrow> map fst g' = map fst g"
  by (induction g arbitrary: g') (auto split: sum.splits)

lemma groups_loop_returns:
  "(\<exists>g'. groups_loop g = Inr g') \<longleftrightarrow> (\<forall>(w, vals) \<in> set g. \<exists>v. series_metrics vals = Inr v)"
  by (induction g) (auto split: sum.splits)

lemma select_baseline_nonempty:
  "points \<noteq> [] \<Longrightarrow>
     select_baseline points =
       Inr (case find (\<lambda>p. threads p = 1) points of Some b \<Rightarrow> b | None \<Rightarrow> points ! 0)"
  by (cases points) (auto simp: select_baseline_def split: option.splits)

lemma first_index_unique:
  fixes P :: "nat \<Rightarrow> bool"
  assumes "P i" "\<forall>j < i. \<not> P j" "P k" "\<forall>j < k. \<not> P j"
  shows "i = k"
proof (rule ccontr)
  assume "i \<noteq> k"
  then have "i < k \<or> k < i" by linarith
  then show False using assms by blast
qed

lemma select_baseline_Inr:
  "select_baseline points = Inr b \<longleftrightarrow>
     points \<noteq> [] \<and>
     (if \<exists>p \<in> set points. threads p = 1
      then \<exists>i < length points. b = points ! i \<and> threads b = 1 \<and> (\<forall>j < i. threads (points ! j) \<noteq> 1)
      else b = points ! 0)"
proof (cases "points = []")
  case True
  then show ?thesis by (simp add: select_baseline_def)
next
  case ne: False
  show ?thesis
  proof (cases "find (\<lambda>p. threads p = 1) points")
    case None
    then have nex: "\<not> (\<exists>p \<in> set points. threads p = 1)"
      unfolding find_None_iff by blast
    have "select_baseline points = Inr (points ! 0)"
      using select_baseline_nonempty [OF ne] None by simp
    then have "select_baseline points = Inr b \<longleftrightarrow> b = points ! 0" by auto
    then show ?thesis using nex ne by presburger
  next
    case (Some x)
    then obtain i where i: "i < length points" "threads (points ! i) = 1" "x = points ! i"
      "\<forall>j < i. threads (points ! j) \<noteq> 1"
      unfolding find_Some_iff by blast
    have ex: "\<exists>p \<in> set points. threads p = 1"
      using i(1,2) nth_mem by blast
    have "select_baseline points = Inr x"
      using select_baseline_nonempty [OF ne] Some by simp
    then have eq: "select_baseline points = Inr b \<longleftrightarrow> b = x" by auto
    have "b = x \<longleftrightarrow> (\<exists>i < length points. b = points ! i \<and> threads b = 1 \<and> (\<forall>j < i. threads (points ! j) \<noteq> 1))"
      (is "_ \<longleftrightarrow> ?R")
    proof
      assume "b = x"
      then show ?R using i by blast
    next
      assume ?R
      then obtain k where k: "k < length points" "b = points ! k" "threads b = 1"
        "\<forall>j < k. threads (points ! j) \<noteq> 1" by blast
      have "i = k"
        by (rule first_index_unique [where P = "\<lambda>n. threads (points ! n) = 1"])
           (use i k in simp_all)
      then show "b = x" using i k by simp
    qed
    then show ?thesis using eq ex ne by presburger
  qed
qed

lemma select_baseline_Inl: "select_baseline points = Inl e \<longleftrightarrow> points = [] \<and> e = IndexError"
  by (auto simp: select_baseline_def split: list.splits)

lemma compute_metrics_returns:
  "(\<exists>res. compute_metrics points = Inr res) \<longleftrightarrow>
     points \<noteq> [] \<and> (\<forall>p \<in> set points. cycles p \<noteq> 0 \<and> threads p \<noteq> 0) \<and>
     distinct_adj (map threads points)"
proof (cases "select_baseline points")
  case (Inl e)
  then have "points = []" by (simp add: select_baseline_Inl)
  then show ?thesis using Inl by (simp add: compute_metrics_def)
next
  case (Inr b)
  then have "points \<noteq> []" by (simp add: select_baseline_Inr)
  then show ?thesis
    using Inr metrics_loop_returns [of "cycles b" None points]
    by (simp add: compute_metrics_def)
qed

lemma compute_metrics_Inl:
  "compute_metrics points = Inl e \<Longrightarrow> points \<noteq> [] \<Longrightarrow> e = ZeroDivisionError"
  by (auto simp: compute_metrics_def select_baseline_Inl split: sum.splits dest: metrics_loop_Inl)

lemma compute_metrics_Inr:
  assumes "compute_metrics points = Inr res"
  obtains b where "select_baseline points = Inr b" "metrics_loop (cycles b) None points = Inr res"
  using assms by (auto simp: compute_metrics_def split: sum.splits)

lemma series_metrics_Inr:
  assumes "series_metrics vals0 = Inr vs"
  obtains b where "select_baseline (sort_key threads vals0) = Inr b"
    "speedup_loop (cycles b) (sort_key threads vals0) = Inr vs"
  using assms by (auto simp: series_metrics_def Let_def split: sum.splits)

lemma series_metrics_returns:
  "(\<exists>vs. series_metrics vals0 = Inr vs) \<longleftrightarrow>
     vals0 \<noteq> [] \<and> (\<forall>p \<in> set vals0. cycles p \<noteq> 0 \<and> threads p \<noteq> 0)"
proof (cases "select_baseline (sort_key threads vals0)")
  case (Inl e)
  then have "length (sort_key threads vals0) = 0" by (simp add: select_baseline_Inl)
  then have "vals0 = []" by simp
  then show ?thesis using Inl by (simp add: series_metrics_def)
next
  case (Inr b)
  then have "sort_key threads vals0 \<noteq> []" by (simp add: select_baseline_Inr)
  then have "vals0 \<noteq> []" by auto
  then show ?thesis using Inr by (simp add: series_metrics_def speedup_loop_Inr)
qed

lemma compute_metrics_A15_returns:
  "(\<exists>g. compute_metrics_A15 points = Inr g) \<longleftrightarrow>
     (\<forall>p \<in> set points. cycles p \<noteq> 0 \<and> threads p \<noteq> 0)"
proof -
  have "(\<exists>g. compute_metrics_A15 points = Inr g) \<longleftrightarrow>
      (\<forall>(w, vals) \<in> set (group_by_width points). \<exists>v. series_metrics vals = Inr v)"
    by (simp add: compute_metrics_A15_def groups_loop_returns)
  also have "\<dots> \<longleftrightarrow> (\<forall>w vals. (w, vals) \<in> set (group_by_width points) \<longrightarrow>
      vals \<noteq> [] \<and> (\<forall>p \<in> set vals. cycles p \<noteq> 0 \<and> threads p \<noteq> 0))"
    by (auto simp: series_metrics_returns)
  also have "\<dots> \<longleftrightarrow> (\<forall>p \<in> set points. cycles p \<noteq> 0 \<and> threads p \<noteq> 0)"
  proof
    assume h: "\<forall>w vals. (w, vals) \<in> set (group_by_width points) \<longrightarrow>
      vals \<noteq> [] \<and> (\<forall>p \<in> set vals. cycles p \<noteq> 0 \<and> threads p \<noteq> 0)"
    show "\<forall>p \<in> set points. cycles p \<noteq> 0 \<and> threads p \<noteq> 0"
    proof
      fix p assume p: "p \<in> set points"
      let ?vs = "filter (\<lambda>q. width q = width p) points"
      have "p \<in> set ?vs" using p by simp
      moreover from this have "?vs \<noteq> []" by (metis empty_iff empty_set)
      then have "(width p, ?vs) \<in> set (group_by_width points)"
        by (simp add: group_by_width_iff)
      ultimately show "cycles p \<noteq> 0 \<and> threads p \<noteq> 0" using h by blast
    qed
  next
    assume "\<forall>p \<in> set points. cycles p \<noteq> 0 \<and> threads p \<noteq> 0"
    then show "\<forall>w vals. (w, vals) \<in> set (group_by_width points) \<longrightarrow>
      vals \<noteq> [] \<and> (\<forall>p \<in> set vals. cycles p \<noteq> 0 \<and> threads p \<noteq> 0)"
      by (auto simp: group_by_width_iff)
  qed
  finally show ?thesis .
qed

lemma compute_metrics_A15_series:
  assumes "compute_metrics_A15 points = Inr g" "(w, vs) \<in> set g"
  shows "\<exists>b. select_baseline (sort_key threads (filter (\<lambda>p. width p = w) points)) = Inr b \<and>
     vs = map (\<lambda>p. p\<lparr>speedup := of_int (cycles b) / of_int (cycles p),
                      efficiency := of_int (cycles b) / of_int (cycles p) / of_int (threads p)\<rparr>)
            (sort_key threads (filter (\<lambda>p. width p = w) points))"
proof -
  from assms obtain vals where v: "(w, vals) \<in> set (group_by_width points)"
    "series_metrics vals = Inr vs"
    unfolding compute_metrics_A15_def using groups_loop_Inr by blast
  from v(1) have vals: "vals = filter (\<lambda>p. width p = w) points"
    by (simp add: group_by_width_iff)
  from v(2) obtain b where b: "select_baseline (sort_key threads vals) = Inr b"
    "speedup_loop (cycles b) (sort_key threads vals) = Inr vs"
    by (rule series_metrics_Inr)
  show ?thesis using b vals by (auto simp: speedup_loop_Inr)
qed

lemmas metrics_eval =
  compute_metrics_def select_baseline_def set_speedup_def set_local_def truediv_def PointA7_def
  PointA15_def compute_metrics_A15_def group_by_width_def series_metrics_def

text \<open>
  Claim C1. For a series \<open>points\<close> the Cortex-A7 \<^verbatim>\<open>compute_metrics\<close> takes as baseline the
  first point with \<^verbatim>\<open>threads == 1\<close> when there is one and the first point of the series
  otherwise, and every point of the result has \<^verbatim>\<open>speedup = baseline.cycles / point.cycles\<close>
  and \<^verbatim>\<open>efficiency = speedup / point.threads\<close>; it returns exactly when the series is not
  empty, no point has zero cycles or zero threads and no two neighbours have the same thread
  count. The Cortex-A15 \<^verbatim>\<open>compute_metrics\<close> does the same for every width: the series of
  width \<open>w\<close> is the points of that width sorted by thread count. For the series
  (1, 1000), (2, 600), (4, 400) the speedups are within 1/1000 of 1.0, 1.667, 2.5 and the
  efficiencies within 1/1000 of 1.0, 0.833, 0.625.
\<close>

theorem compute_metrics_speedup_efficiency:
  "(compute_metrics points = Inr res \<longrightarrow>
      (\<exists>b. select_baseline points = Inr b \<and>
         (if \<exists>p \<in> set points. threads p = 1
          then \<exists>i < length points. b = points ! i \<and> threads b = 1 \<and>
                 (\<forall>j < i. threads (points ! j) \<noteq> 1)
          else b = points ! 0) \<and>
         length res = length points \<and>
         (\<forall>i < length points.
            speedup (res ! i) = of_int (cycles b) / of_int (cycles (points ! i)) \<and>
            efficiency (res ! i) = speedup (res ! i) / of_int (threads (points ! i)) \<and>
            threads (res ! i) = threads (points ! i) \<and> cycles (res ! i) = cycles (points ! i) \<and>
            folder (res ! i) = folder (points ! i)))) \<and>
   ((\<exists>r. compute_metrics points = Inr r) \<longleftrightarrow>
      points \<noteq> [] \<and> (\<forall>p \<in> set points. cycles p \<noteq> 0 \<and> threads p \<noteq> 0) \<and>
      distinct_adj (map threads points)) \<and>
   (compute_metrics_A15 pointsW = Inr g \<and> (w, vs) \<in> set g \<and>
    series = sort_key threads (filter (\<lambda>p. width p = w) pointsW) \<longrightarrow>
      (\<exists>b. select_baseline series = Inr b \<and>
         (if \<exists>p \<in> set series. threads p = 1
          then \<exists>i < length series. b = series ! i \<and> threads b = 1 \<and>
                 (\<forall>j < i. threads (series ! j) \<noteq> 1)
          else b = series ! 0) \<and>
         length vs = length series \<and>
         (\<forall>i < length series.
            speedup (vs ! i) = of_int (cycles b) / of_int (cycles (series ! i)) \<and>
            efficiency (vs ! i) = speedup (vs ! i) / of_int (threads (series ! i)) \<and>
            threads (vs ! i) = threads (series ! i) \<and> cycles (vs ! i) = cycles (series ! i) \<and>
            folder (vs ! i) = folder (series ! i) \<and> width (vs ! i) = w))) \<and>
   ((\<exists>r. compute_metrics_A15 pointsW = Inr r) \<longleftrightarrow>
      (\<forall>p \<in> set pointsW. cycles p \<noteq> 0 \<and> threads p \<noteq> 0)) \<and>
   (\<exists>r. compute_metrics [PointA7 1 1000 ''t1_a'', PointA7 2 600 ''t2_a'', PointA7 4 400 ''t4_a''] = Inr r \<and>
      list_all2 (\<lambda>x y. \<bar>x - y\<bar> \<le> 1 / 1000) (map speedup r) [1, 1667 / 1000, 25 / 10] \<and>
      list_all2 (\<lambda>x y. \<bar>x - y\<bar> \<le> 1 / 1000) (map efficiency r) [1, 833 / 1000, 625 / 1000])"
proof (intro conjI impI)
  assume r: "compute_metrics points = Inr res"
  then obtain b where b: "select_baseline points = Inr b"
    and l: "metrics_loop (cycles b) None points = Inr res"
    by (rule compute_metrics_Inr)
  have "length res = length points" using l by (rule metrics_loop_length)
  moreover have "\<forall>i < length points.
      speedup (res ! i) = of_int (cycles b) / of_int (cycles (points ! i)) \<and>
      efficiency (res ! i) = speedup (res ! i) / of_int (threads (points ! i)) \<and>
      threads (res ! i) = threads (points ! i) \<and> cycles (res ! i) = cycles (points ! i) \<and>
      folder (res ! i) = folder (points ! i)"
    using metrics_loop_fields [OF l] by simp
  ultimately show "\<exists>b. select_baseline points = Inr b \<and>
         (if \<exists>p \<in> set points. threads p = 1
          then \<exists>i < length points. b = points ! i \<and> threads b = 1 \<and>
                 (\<forall>j < i. threads (points ! j) \<noteq> 1)
          else b = points ! 0) \<and>
         length res = length points \<and>
         (\<forall>i < length points.
            speedup (res ! i) = of_int (cycles b) / of_int (cycles (points ! i)) \<and>
            efficiency (res ! i) = speedup (res ! i) / of_int (threads (points ! i)) \<and>
            threads (res ! i) = threads (points ! i) \<and> cycles (res ! i) = cycles (points ! i) \<and>
            folder (res ! i) = folder (points ! i))"
    using b b [unfolded select_baseline_Inr] by blast
next
  show "(\<exists>r. compute_metrics points = Inr r) \<longleftrightarrow>
      points \<noteq> [] \<and> (\<forall>p \<in> set points. cycles p \<noteq> 0 \<and> threads p \<noteq> 0) \<and>
      distinct_adj (map threads points)"
    by (rule compute_metrics_returns)
next
  assume a: "compute_metrics_A15 pointsW = Inr g \<and> (w, vs) \<in> set g \<and>
    series = sort_key threads (filter (\<lambda>p. width p = w) pointsW)"
  then obtain b where b: "select_baseline series = Inr b" and
    vs: "vs = map (\<lambda>p. p\<lparr>speedup := of_int (cycles b) / of_int (cycles p),
                      efficiency := of_int (cycles b) / of_int (cycles p) / of_int (threads p)\<rparr>) series"
    using compute_metrics_A15_series [of pointsW g w vs] by blast
  have wd: "\<forall>i < length series. width (series ! i) = w"
  proof (intro allI impI)
    fix i assume "i < length series"
    then have "series ! i \<in> set series" by simp
    then show "width (series ! i) = w" using a by simp
  qed
  have "length vs = length series" using vs by simp
  moreover have "\<forall>i < length series.
            speedup (vs ! i) = of_int (cycles b) / of_int (cycles (series ! i)) \<and>
            efficiency (vs ! i) = speedup (vs ! i) / of_int (threads (series ! i)) \<and>
            threads (vs ! i) = threads (series ! i) \<and> cycles (vs ! i) = cycles (series ! i) \<and>
            folder (vs ! i) = folder (series ! i) \<and> width (vs ! i) = w"
    using wd by (simp add: vs)
  ultimately show "\<exists>b. select_baseline series = Inr b \<and>
         (if \<exists>p \<in> set series. threads p = 1
          then \<exists>i < length series. b = series ! i \<and> threads b = 1 \<and>
                 (\<forall>j < i. threads (series ! j) \<noteq> 1)
          else b = series ! 0) \<and>
         length vs = length series \<and>
         (\<forall>i < length series.
            speedup (vs ! i) = of_int (cycles b) / of_int (cycles (series ! i)) \<and>
            efficiency (vs ! i) = speedup (vs ! i) / of_int (threads (series ! i)) \<and>
            threads (vs ! i) = threads (series ! i) \<and> cycles (vs ! i) = cycles (series ! i) \<and>
            folder (vs ! i) = folder (series ! i) \<and> width (vs ! i) = w)"
    using b b [unfolded select_baseline_Inr] by blast
next
  show "(\<exists>r. compute_metrics_A15 pointsW = Inr r) \<longleftrightarrow>
      (\<forall>p \<in> set pointsW. cycles p \<noteq> 0 \<and> threads p \<noteq> 0)"
    by (rule compute_metrics_A15_returns)
next
  show "\<exists>r. compute_metrics [PointA7 1 1000 ''t1_a'', PointA7 2 600 ''t2_a'', PointA7 4 400 ''t4_a''] = Inr r \<and>
      list_all2 (\<lambda>x y. \<bar>x - y\<bar> \<le> 1 / 1000) (map speedup r) [1, 1667 / 1000, 25 / 10] \<and>
      list_all2 (\<lambda>x y. \<bar>x - y\<bar> \<le> 1 / 1000) (map efficiency r) [1, 833 / 1000, 625 / 1000]"
    by (simp add: compute_metrics_def select_baseline_def set_speedup_def set_local_def
        truediv_def PointA7_def)
qed

theorem compute_metrics_speedup_efficiency_witness:
  "compute_metrics [PointA7 2 600 ''t2_a'', PointA7 4 400 ''t4_a''] =
     Inr [(PointA7 2 600 ''t2_a'')\<lparr>speedup := 1, efficiency := 1 / 2\<rparr>,
          (PointA7 4 400 ''t4_a'')\<lparr>speedup := 3 / 2, efficiency := 3 / 8,
             local_speedup := Some (3 / 2), local_efficiency := Some (3 / 4),
             marginal_efficiency := Some (1 / 4)\<rparr>] \<and>
   select_baseline [PointA7 2 600 ''t2_a'', PointA7 4 400 ''t4_a''] = Inr (PointA7 2 600 ''t2_a'') \<and>
   compute_metrics_A15 [PointA15 2 1 1000 ''w2_t1'', PointA15 4 2 300 ''w4_t2'', PointA15 2 2 600 ''w2_t2''] =
     Inr [(2, [(PointA15 2 1 1000 ''w2_t1'')\<lparr>speedup := 1, efficiency := 1\<rparr>,
               (PointA15 2 2 600 ''w2_t2'')\<lparr>speedup := 5 / 3, efficiency := 5 / 6\<rparr>]),
          (4, [(PointA15 4 2 300 ''w4_t2'')\<lparr>speedup := 1, efficiency := 1 / 2\<rparr>])]"
  using compute_metrics_speedup_efficiency
    [of "[PointA7 2 600 ''t2_a'', PointA7 4 400 ''t4_a'']" _
        "[PointA15 2 1 1000 ''w2_t1'', PointA15 4 2 300 ''w4_t2'', PointA15 2 2 600 ''w2_t2'']"]
  by (simp add: metrics_eval)

text \<open>
  Claim C2. When the Cortex-A7 \<^verbatim>\<open>compute_metrics\<close> returns, every point after the first has
  \<^verbatim>\<open>local_speedup = previous.cycles / point.cycles\<close>,
  \<^verbatim>\<open>local_efficiency = local_speedup / (point.threads / previous.threads)\<close> and
  \<^verbatim>\<open>marginal_efficiency = (point.speedup - previous.speedup) / (point.threads - previous.threads)\<close>;
  the three fields of the first point are left as they were, which is \<open>None\<close> for a point
  built by the constructor, as \<^verbatim>\<open>collect_points\<close> builds them.
\<close>

theorem compute_metrics_adjacent:
  "compute_metrics points = Inr res \<Longrightarrow>
     (\<forall>i. Suc i < length points \<longrightarrow>
        local_speedup (res ! Suc i) =
          Some (of_int (cycles (points ! i)) / of_int (cycles (points ! Suc i))) \<and>
        local_efficiency (res ! Suc i) =
          Some (of_int (cycles (points ! i)) / of_int (cycles (points ! Suc i)) /
                (of_int (threads (points ! Suc i)) / of_int (threads (points ! i)))) \<and>
        marginal_efficiency (res ! Suc i) =
          Some ((speedup (res ! Suc i) - speedup (res ! i)) /
                of_int (threads (points ! Suc i) - threads (points ! i)))) \<and>
     local_speedup (res ! 0) = local_speedup (points ! 0) \<and>
     local_efficiency (res ! 0) = local_efficiency (points ! 0) \<and>
     marginal_efficiency (res ! 0) = marginal_efficiency (points ! 0) \<and>
     (\<forall>t c f ps. points = PointA7 t c f # ps \<longrightarrow>
        local_speedup (res ! 0) = None \<and> local_efficiency (res ! 0) = None \<and>
        marginal_efficiency (res ! 0) = None)"
proof -
  assume r: "compute_metrics points = Inr res"
  then obtain b where "select_baseline points = Inr b"
    and l: "metrics_loop (cycles b) None points = Inr res"
    by (rule compute_metrics_Inr)
  have ne: "points \<noteq> []" using r compute_metrics_returns [of points] by blast
  then obtain p ps where pts: "points = p # ps" by (cases points) auto
  have first: "local_speedup (res ! 0) = local_speedup (points ! 0) \<and>
     local_efficiency (res ! 0) = local_efficiency (points ! 0) \<and>
     marginal_efficiency (res ! 0) = marginal_efficiency (points ! 0)"
    using metrics_loop_head_None [OF l [unfolded pts]] by (simp add: pts)
  have adj: "\<forall>i. Suc i < length points \<longrightarrow>
        local_speedup (res ! Suc i) =
          Some (of_int (cycles (points ! i)) / of_int (cycles (points ! Suc i))) \<and>
        local_efficiency (res ! Suc i) =
          Some (of_int (cycles (points ! i)) / of_int (cycles (points ! Suc i)) /
                (of_int (threads (points ! Suc i)) / of_int (threads (points ! i)))) \<and>
        marginal_efficiency (res ! Suc i) =
          Some ((speedup (res ! Suc i) - speedup (res ! i)) /
                of_int (threads (points ! Suc i) - threads (points ! i)))"
    using metrics_loop_adjacent [OF l] by blast
  have fresh: "\<forall>t c f ps. points = PointA7 t c f # ps \<longrightarrow>
        local_speedup (res ! 0) = None \<and> local_efficiency (res ! 0) = None \<and>
        marginal_efficiency (res ! 0) = None"
    using first by (auto simp: PointA7_def)
  show ?thesis using first adj fresh by blast
qed

theorem compute_metrics_adjacent_witness:
  "compute_metrics [PointA7 1 1000 ''t1_a'', PointA7 2 600 ''t2_a'', PointA7 4 400 ''t4_a''] =
     Inr [(PointA7 1 1000 ''t1_a'')\<lparr>speedup := 1, efficiency := 1\<rparr>,
          (PointA7 2 600 ''t2_a'')\<lparr>speedup := 5 / 3, efficiency := 5 / 6,
             local_speedup := Some (5 / 3), local_efficiency := Some (5 / 6),
             marginal_efficiency := Some (2 / 3)\<rparr>,
          (PointA7 4 400 ''t4_a'')\<lparr>speedup := 5 / 2, efficiency := 5 / 8,
             local_speedup := Some (3 / 2), local_efficiency := Some (3 / 4),
             marginal_efficiency := Some (5 / 12)\<rparr>]"
proof -
  let ?ps = "[PointA7 1 1000 ''t1_a'', PointA7 2 600 ''t2_a'', PointA7 4 400 ''t4_a'']"
  obtain res where r: "compute_metrics ?ps = Inr res"
    using compute_metrics_returns [of ?ps] by (auto simp: PointA7_def)
  note compute_metrics_adjacent [OF r]
  then show ?thesis using r by (simp add: metrics_eval)
qed

text \<open>
  Claim C3. A series in ascending thread order in which two points have the same thread
  count makes the Cortex-A7 \<^verbatim>\<open>compute_metrics\<close> fail: the division by the zero thread
  delta raises Python's \<^verbatim>\<open>ZeroDivisionError\<close>, the exception that stands for the
  specification's MetricError, and no result with an undefined metric is returned.
\<close>

theorem compute_metrics_duplicate_threads:
  "sorted (map threads points) \<Longrightarrow> \<not> distinct (map threads points) \<Longrightarrow>
     compute_metrics points = Inl ZeroDivisionError"
proof -
  assume s: "sorted (map threads points)" and d: "\<not> distinct (map threads points)"
  have ne: "points \<noteq> []" using d by auto
  have "\<not> distinct_adj (map threads points)"
    using s d sorted_distinct_adj by blast
  then have "\<not> (\<exists>res. compute_metrics points = Inr res)"
    by (simp add: compute_metrics_returns)
  then obtain e where "compute_metrics points = Inl e"
    by (cases "compute_metrics points") auto
  then show ?thesis using compute_metrics_Inl [OF _ ne] by blast
qed

theorem compute_metrics_duplicate_threads_witness:
  "sorted (map threads [PointA7 1 1000 ''t1_a'', PointA7 2 600 ''t2_a'', PointA7 2 500 ''t2_b'']) \<and>
   \<not> distinct (map threads [PointA7 1 1000 ''t1_a'', PointA7 2 600 ''t2_a'', PointA7 2 500 ''t2_b'']) \<and>
   compute_metrics [PointA7 1 1000 ''t1_a'', PointA7 2 600 ''t2_a'', PointA7 2 500 ''t2_b''] =
     Inl ZeroDivisionError"
proof -
  let ?ps = "[PointA7 1 1000 ''t1_a'', PointA7 2 600 ''t2_a'', PointA7 2 500 ''t2_b'']"
  have s: "sorted (map threads ?ps)" and d: "\<not> distinct (map threads ?ps)"
    by (simp_all add: PointA7_def)
  show ?thesis using s d compute_metrics_duplicate_threads [OF s d] by blast
qed


section \<open>Properties of the parsers\<close>

lemma literal_Some: "literal lit s = Some r \<longleftrightarrow> s = lit @ r"
  by (auto simp: literal_def startswith_def) (metis append_take_drop_id)

lemma literal_nth:
  "literal lit s = Some r \<Longrightarrow> k < length lit \<Longrightarrow> s ! k = lit ! k"
  by (simp add: literal_Some nth_append)



lemma sim_line_not_system:
  assumes "literal ''sim_ticks'' s = Some r \<or> literal ''sim_insts'' s = Some r"
  shows "literal ''system.cpu'' s = None" "literal ''system.cpu_clk_domain.clock'' s = None"
    "literal ''system.clk_domain.clock'' s = None"
proof -
  have "s ! 1 = CHR ''i''" using assms literal_nth [of _ s r 1] by auto
  then have "\<And>lit r'. literal lit s = Some r' \<Longrightarrow> 1 < length lit \<Longrightarrow> lit ! 1 = CHR ''i''"
    using literal_nth by metis
  then have a: "\<And>lit. 1 < length lit \<Longrightarrow> lit ! 1 \<noteq> CHR ''i'' \<Longrightarrow> literal lit s = None"
    by (metis option.exhaust)
  show "literal ''system.cpu'' s = None" by (rule a) simp_all
  show "literal ''system.cpu_clk_domain.clock'' s = None" by (rule a) simp_all
  show "literal ''system.clk_domain.clock'' s = None" by (rule a) simp_all
qed


lemma SIM_INS_exclusive:
  assumes "SIM_INS_RE s = Some v"
  shows "NUM_CYCLES_RE s = None" "IPC_RE s = None" "CYC_RE_cpu s = None"
proof -
  from assms obtain r where "literal ''sim_insts'' s = Some r"
    by (auto simp: SIM_INS_RE_def split: option.splits)
  then have "literal ''sim_ticks'' s = Some r \<or> literal ''sim_insts'' s = Some r" by simp
  note n = sim_line_not_system [OF this]
  show "NUM_CYCLES_RE s = None" by (simp add: NUM_CYCLES_RE_def n)
  show "IPC_RE s = None" by (simp add: IPC_RE_def n)
  show "CYC_RE_cpu s = None" by (simp add: CYC_RE_cpu_def n)
qed



lemma IPC_exclusive:
  assumes "IPC_RE s = Some v"
  shows "NUM_CYCLES_RE s = None"
proof -
  from assms obtain r r' where r: "literal ''system.cpu'' s = Some r"
    "literal ''.ipc'' (dropWhile is_digit r) = Some r'"
    by (auto simp: IPC_RE_def split: option.splits)
  have "dropWhile is_digit r ! 1 = CHR ''i''" using literal_nth [OF r(2), of 1] by simp
  then have "literal ''.numCycles'' (dropWhile is_digit r) = None"
    using literal_nth [of "''.numCycles''" "dropWhile is_digit r" _ 1]
    by (cases "literal ''.numCycles'' (dropWhile is_digit r)") auto
  then show ?thesis by (simp add: NUM_CYCLES_RE_def r)
qed

lemma all_matches_Nil: "all_matches rule [] = []"
  by (simp add: all_matches_def List.map_filter_simps)

lemma all_matches_Cons:
  "all_matches rule (l # ls) =
     (case rule (strip l) of None \<Rightarrow> all_matches rule ls | Some v \<Rightarrow> v # all_matches rule ls)"
  by (simp add: all_matches_def List.map_filter_simps split: option.splits)

lemma all_matches_empty_iff:
  "all_matches rule lines = [] \<longleftrightarrow> (\<forall>l \<in> set lines. rule (strip l) = None)"
  by (induction lines) (auto simp: all_matches_Nil all_matches_Cons split: option.splits)



lemma last_match_Nil: "last_match rule [] = None"
  by (simp add: last_match_def all_matches_Nil)

lemma last_match_Cons:
  "last_match rule (l # ls) =
     (case last_match rule ls of
        Some v \<Rightarrow> Some v
      | None \<Rightarrow> rule (strip l))"
  by (auto simp: last_match_def all_matches_Cons split: option.splits list.splits)

lemma last_match_None: "last_match rule lines = None \<longleftrightarrow> all_matches rule lines = []"
  by (simp add: last_match_def split: list.splits)





lemma stats_line_step:
  "stats_line l (c, i, s) =
     (c @ (case NUM_CYCLES_RE (strip l) of None \<Rightarrow> [] | Some v \<Rightarrow> [v]),
      i @ (case IPC_RE (strip l) of None \<Rightarrow> [] | Some v \<Rightarrow> [v]),
      (case SIM_INS_RE (strip l) of None \<Rightarrow> s | Some v \<Rightarrow> v))"
proof -
  let ?s = "strip l"
  consider (cyc) v where "NUM_CYCLES_RE ?s = Some v"
    | (ipc) v where "IPC_RE ?s = Some v"
    | (ins) v where "SIM_INS_RE ?s = Some v"
    | (none) "NUM_CYCLES_RE ?s = None" "IPC_RE ?s = None" "SIM_INS_RE ?s = None"
    by (cases "NUM_CYCLES_RE ?s"; cases "IPC_RE ?s"; cases "SIM_INS_RE ?s") auto
  then show ?thesis
  proof cases
    case cyc
    have "IPC_RE ?s = None" "SIM_INS_RE ?s = None"
      using cyc IPC_exclusive SIM_INS_exclusive(1)
      by (metis option.distinct(1) option.exhaust)+
    then show ?thesis using cyc by (simp add: stats_line_def)
  next
    case ipc
    have "NUM_CYCLES_RE ?s = None" using ipc by (rule IPC_exclusive)
    moreover have "SIM_INS_RE ?s = None"
      using ipc SIM_INS_exclusive(2) by (metis option.distinct(1) option.exhaust)
    ultimately show ?thesis using ipc by (simp add: stats_line_def)
  next
    case ins
    note SIM_INS_exclusive [OF ins]
    then show ?thesis using ins by (simp add: stats_line_def)
  next
    case none
    then show ?thesis by (simp add: stats_line_def)
  qed
qed

lemma stats_fold:
  "fold stats_line lines (c, i, s) =
     (c @ all_matches NUM_CYCLES_RE lines, i @ all_matches IPC_RE lines,
      (case last_match SIM_INS_RE lines of None \<Rightarrow> s | Some v \<Rightarrow> v))"
proof (induction lines arbitrary: c i s)
  case Nil
  then show ?case by (simp add: all_matches_Nil last_match_Nil)
next
  case (Cons l ls)
  show ?case
    by (simp add: stats_line_step Cons.IH all_matches_Cons last_match_Cons split: option.splits)
qed

lemma stats_scan_eq:
  "stats_scan lines =
     (all_matches NUM_CYCLES_RE lines, all_matches IPC_RE lines,
      (case last_match SIM_INS_RE lines of None \<Rightarrow> 0 | Some v \<Rightarrow> v))"
  by (simp add: stats_scan_def stats_fold)

lemma config_line_snd:
  "snd (config_line l (c, s)) = (case SIM_INS_RE (strip l) of None \<Rightarrow> s | Some v \<Rightarrow> v)"
proof (cases "SIM_INS_RE (strip l)")
  case None
  then show ?thesis by (simp add: config_line_def Let_def split: option.splits prod.splits)
next
  case (Some v)
  note SIM_INS_exclusive [OF Some]
  then show ?thesis using Some by (simp add: config_line_def)
qed

lemma config_fold_snd:
  "snd (fold config_line lines st) =
     (case last_match SIM_INS_RE lines of None \<Rightarrow> snd st | Some v \<Rightarrow> v)"
proof (induction lines arbitrary: st)
  case Nil
  then show ?case by (simp add: last_match_Nil)
next
  case (Cons l ls)
  obtain c s where st: "st = (c, s)" by (cases st)
  show ?case
    by (simp add: Cons.IH st config_line_snd last_match_Cons split: option.splits)
qed

lemma config_scan_snd:
  "snd (config_scan lines) = (case last_match SIM_INS_RE lines of None \<Rightarrow> 0 | Some v \<Rightarrow> v)"
  by (simp add: config_scan_def config_fold_snd split: option.splits)


lemmas text_eval = is_digit_def is_space_def is_word_def strip_def startswith_def digit_val_def
  int_of_digits_def literal_def boundary_def blanks_int_def blanks_decimal_def decimal_val_def
  NUM_CYCLES_RE_def IPC_RE_def SIM_INS_RE_def SIM_TICKS_RE_def CPU_CLOCK_RE_def SYS_CLOCK_RE_def
  CYC_RE_cpu_def py_max_def py_round_def Let_def

lemmas parse_eval = timing_init_def timing_line_def timing_scan_def timing_cycles_def
  parse_cycles_A15_def parse_cycles_A7_def parse_cycles_speedup_def stats_line_def stats_scan_def
  parse_stats_def config_line_def config_scan_def parse_config_def List.map_filter_simps
  all_matches_def first_match_def last_match_def stats_of_def



lemma parse_stats_Inr:
  "parse_stats f = Inr r \<longleftrightarrow>
     all_matches NUM_CYCLES_RE (text_lines f) \<noteq> [] \<and>
     all_matches IPC_RE (text_lines f) \<noteq> [] \<and>
     (\<exists>si. last_match SIM_INS_RE (text_lines f) = Some si \<and> 0 < si \<and>
        0 < py_max (all_matches NUM_CYCLES_RE (text_lines f)) \<and>
        r = (py_max (all_matches IPC_RE (text_lines f)),
             of_int si / of_int (py_max (all_matches NUM_CYCLES_RE (text_lines f))),
             si, py_max (all_matches NUM_CYCLES_RE (text_lines f))))"
  by (auto simp: parse_stats_def stats_scan_eq Let_def split: option.splits)



text \<open>
  Claim C6. When the instruction-count rule matches on the lines with values \<open>vs\<close> (in the
  order of the lines), the \<^verbatim>\<open>sim_insts\<close> that \<^verbatim>\<open>parse_stats\<close> and \<^verbatim>\<open>parse_config\<close> capture is
  the last element of \<open>vs\<close>, and it is the value they return and divide by the cycle count.
\<close>

theorem sim_insts_last_wins:
  "all_matches SIM_INS_RE (text_lines f) = vs \<Longrightarrow> vs \<noteq> [] \<Longrightarrow>
     snd (snd (stats_scan (text_lines f))) = last vs \<and>
     snd (config_scan (text_lines f)) = last vs \<and>
     (\<forall>ipc_max ipc_global insts max_cycles.
        parse_stats f = Inr (ipc_max, ipc_global, insts, max_cycles) \<longrightarrow>
          insts = last vs \<and> ipc_global = of_int (last vs) / of_int max_cycles) \<and>
     (\<forall>ipc_global insts max_cycles.
        parse_config f = Inr (ipc_global, insts, max_cycles) \<longrightarrow>
          insts = last vs \<and> ipc_global = of_int (last vs) / of_int max_cycles)"
proof -
  assume vs: "all_matches SIM_INS_RE (text_lines f) = vs" and ne: "vs \<noteq> []"
  then have lm: "last_match SIM_INS_RE (text_lines f) = Some (last vs)"
    by (cases vs) (simp_all add: last_match_def)
  have 1: "snd (snd (stats_scan (text_lines f))) = last vs"
    by (simp add: stats_scan_eq lm)
  have 2: "snd (config_scan (text_lines f)) = last vs"
    by (simp add: config_scan_snd lm)
  have 3: "\<forall>ipc_max ipc_global insts max_cycles.
        parse_stats f = Inr (ipc_max, ipc_global, insts, max_cycles) \<longrightarrow>
          insts = last vs \<and> ipc_global = of_int (last vs) / of_int max_cycles"
    by (auto simp: parse_stats_Inr lm)
  have 4: "\<forall>ipc_global insts max_cycles.
        parse_config f = Inr (ipc_global, insts, max_cycles) \<longrightarrow>
          insts = last vs \<and> ipc_global = of_int (last vs) / of_int max_cycles"
  proof (intro allI impI)
    fix ipc_global insts max_cycles
    assume r: "parse_config f = Inr (ipc_global, insts, max_cycles)"
    obtain c s where cs: "config_scan (text_lines f) = (c, s)"
      by (cases "config_scan (text_lines f)")
    then have "s = last vs" using 2 by simp
    then show "insts = last vs \<and> ipc_global = of_int (last vs) / of_int max_cycles"
      using r cs by (auto simp: parse_config_def Let_def split: if_splits)
  qed
  show ?thesis using 1 2 3 4 by blast
qed

theorem sim_insts_last_wins_witness:
  "all_matches SIM_INS_RE (text_lines (stats_of ''m16/w2_t2/stats.txt''
      [''sim_insts 10'', ''system.cpu0.numCycles 100'', ''system.cpu0.ipc 0.5'', ''sim_insts 300'',
       ''system.cpu1.numCycles 200'', ''sim_insts 250''])) = [10, 300, 250] \<and>
   parse_stats (stats_of ''m16/w2_t2/stats.txt''
      [''sim_insts 10'', ''system.cpu0.numCycles 100'', ''system.cpu0.ipc 0.5'', ''sim_insts 300'',
       ''system.cpu1.numCycles 200'', ''sim_insts 250'']) = Inr (1 / 2, 5 / 4, 250, 200) \<and>
   parse_config (stats_of ''m16/w2_t2/stats.txt''
      [''sim_insts 10'', ''system.cpu0.numCycles 100'', ''system.cpu0.ipc 0.5'', ''sim_insts 300'',
       ''system.cpu1.numCycles 200'', ''sim_insts 250'']) = Inr (5 / 4, 250, 200)"
proof -
  let ?f = "stats_of ''m16/w2_t2/stats.txt''
      [''sim_insts 10'', ''system.cpu0.numCycles 100'', ''system.cpu0.ipc 0.5'', ''sim_insts 300'',
       ''system.cpu1.numCycles 200'', ''sim_insts 250'']"
  have 1: "all_matches SIM_INS_RE (text_lines ?f) = [10, 300, 250]"
    by (simp add: text_eval parse_eval)
  have 2: "parse_stats ?f = Inr (1 / 2, 5 / 4, 250, 200)"
    by (simp add: text_eval parse_eval)
  have 3: "parse_config ?f = Inr (5 / 4, 250, 200)"
    by (simp add: text_eval parse_eval)
  have 4: "[10, 300, 250] \<noteq> ([]::int list)" by simp
  show ?thesis using sim_insts_last_wins [OF 1 4] 1 2 3 by blast
qed







section \<open>Properties of the scanners\<close>

lemma points_of_Nil: "points_of visit [] = []"
  by (simp add: points_of_def List.map_filter_simps)

lemma points_of_Cons:
  "points_of visit (e # es) =
     (case visit e of Found p \<Rightarrow> p # points_of visit es | _ \<Rightarrow> points_of visit es)"
  by (simp add: points_of_def List.map_filter_simps split: outcome.splits)

lemma warnings_of_Nil: "warnings_of visit [] = []"
  by (simp add: warnings_of_def List.map_filter_simps)

lemma warnings_of_Cons:
  "warnings_of visit (e # es) =
     (case visit e of Warn w \<Rightarrow> w # warnings_of visit es | _ \<Rightarrow> warnings_of visit es)"
  by (simp add: warnings_of_def List.map_filter_simps split: outcome.splits)

lemma set_points_of: "set (points_of visit es) = {p. \<exists>e \<in> set es. visit e = Found p}"
  by (induction es) (auto simp: points_of_Nil points_of_Cons split: outcome.splits)

lemma set_warnings_of: "set (warnings_of visit es) = {w. \<exists>e \<in> set es. visit e = Warn w}"
  by (induction es) (auto simp: warnings_of_Nil warnings_of_Cons split: outcome.splits)

lemma collect_loop_Inr:
  "(\<forall>e \<in> set es. \<forall>x. visit e \<noteq> Raised x) \<Longrightarrow>
     collect_loop visit es ps ws = Inr (ps @ points_of visit es, ws @ warnings_of visit es)"
proof (induction es arbitrary: ps ws)
  case Nil
  then show ?case by (simp add: points_of_Nil warnings_of_Nil)
next
  case (Cons e es)
  then have IH: "\<And>ps ws. collect_loop visit es ps ws =
      Inr (ps @ points_of visit es, ws @ warnings_of visit es)"
    by simp
  from Cons.prems have "\<forall>x. visit e \<noteq> Raised x" by simp
  then show ?case
    by (cases "visit e") (simp_all add: IH points_of_Cons warnings_of_Cons)
qed


lemma points_of_sorted:
  fixes key :: "'p \<Rightarrow> 'k::linorder" and nm :: "'e \<Rightarrow> 'k"
  assumes "\<And>e p. visit e = Found p \<Longrightarrow> key p = nm e"
  shows "sorted (map nm es) \<Longrightarrow> sorted (map key (points_of visit es))"
proof (induction es)
  case Nil
  then show ?case by (simp add: points_of_Nil)
next
  case (Cons a es)
  then have s: "sorted (map key (points_of visit es))" and
    le: "\<forall>e \<in> set es. nm a \<le> nm e" by auto
  show ?case
  proof (cases "visit a")
    case (Found p)
    have "\<forall>q \<in> set (points_of visit es). key p \<le> key q"
    proof
      fix q assume "q \<in> set (points_of visit es)"
      then obtain e where "e \<in> set es" "visit e = Found q" by (auto simp: set_points_of)
      then show "key p \<le> key q" using le assms Found by metis
    qed
    then show ?thesis using Found s by (simp add: points_of_Cons)
  qed (use s in \<open>simp_all add: points_of_Cons\<close>)
qed

lemma sort_key_stable_sorted:
  fixes k :: "'p \<Rightarrow> 'k::linorder" and key :: "'p \<Rightarrow> 'n::linorder"
  assumes "sorted (map key ps)"
  shows "sorted (map key (filter (\<lambda>p. k p = v) (sort_key k ps)))"
proof -
  have "filter (\<lambda>p. k p = v) (sort_key k ps) = filter (\<lambda>p. k p = v) ps"
    by (rule sort_key_stable)
  moreover have "sorted (map key (filter (\<lambda>p. k p = v) ps))"
    using assms by (rule sorted_filter)
  ultimately show ?thesis by simp
qed

lemma only_ValueError:
  "parse_cycles_speedup f = Inl x \<Longrightarrow> \<exists>m. x = ValueError m"
  "parse_cycles_A15 f = Inl x \<Longrightarrow> \<exists>m. x = ValueError m"
  "parse_cycles_A7 f = Inl x \<Longrightarrow> \<exists>m. x = ValueError m"
  "parse_stats f = Inl x \<Longrightarrow> \<exists>m. x = ValueError m"
  by (auto simp: parse_cycles_speedup_def parse_cycles_A15_def parse_cycles_A7_def
      parse_stats_def Let_def split: if_splits option.splits prod.splits)

lemma visit_not_Raised:
  "visit_speedup e \<noteq> Raised x" "visit_cycles e \<noteq> Raised x"
  "visit_performance max_threads e \<noteq> Raised x" "visit_ipc sim max_threads e \<noteq> Raised x"
  by (auto simp: visit_speedup_def visit_cycles_def visit_performance_def visit_ipc_def Let_def
      split: option.splits sum.splits py_error.splits prod.splits if_splits
      dest!: only_ValueError)

lemma collect_points_Some:
  "collect_points r (Some entries) =
     Inr (sort_key threads (points_of visit_speedup (sort_key name entries)),
          warnings_of visit_speedup (sort_key name entries))"
  by (simp add: collect_points_def collect_loop_Inr visit_not_Raised)

lemma collect_data_Some:
  "collect_data r (Some entries) =
     Inr (sort_key fst (points_of visit_cycles (sort_key name entries)),
          warnings_of visit_cycles (sort_key name entries))"
  by (simp add: collect_data_def collect_loop_Inr visit_not_Raised)

lemma collect_points_A15_Some:
  "collect_points_A15 r (Some entries) mt =
     Inr (sort_key (\<lambda>p. (width p, threads p))
            (points_of (visit_performance mt) (sort_key name entries)),
          warnings_of (visit_performance mt) (sort_key name entries))"
  by (simp add: collect_points_A15_def collect_loop_Inr visit_not_Raised)

lemma collect_Some:
  "collect r (Some entries) sim mt =
     Inr (sort_key (\<lambda>p. (ipc_width p, ipc_threads p))
            (points_of (visit_ipc sim mt) (sort_key name entries)),
          warnings_of (visit_ipc sim mt) (sort_key name entries))"
  by (simp add: collect_def collect_loop_Inr visit_not_Raised)

lemma visit_speedup_folder: "visit_speedup e = Found p \<Longrightarrow> folder p = name e"
  by (auto simp: visit_speedup_def Let_def PointA7_def
      split: if_splits option.splits sum.splits py_error.splits prod.splits)

lemma visit_performance_folder: "visit_performance mt e = Found p \<Longrightarrow> folder p = name e"
  by (auto simp: visit_performance_def Let_def PointA15_def
      split: if_splits option.splits sum.splits py_error.splits prod.splits)

lemma visit_ipc_folder: "visit_ipc sim mt e = Found p \<Longrightarrow> ipc_folder p = name e"
  by (auto simp: visit_ipc_def Let_def
      split: if_splits option.splits sum.splits py_error.splits prod.splits)

lemma visit_cycles_folder: "visit_cycles e = Found p \<Longrightarrow> snd (snd p) = name e"
  by (auto simp: visit_cycles_def Let_def
      split: if_splits option.splits sum.splits py_error.splits prod.splits)

lemma sorted_sort_key_name: "sorted (map name (sort_key name entries))"
  by (rule sorted_sort_key)

text \<open>
  Claim C7, as the code has it. Both \<^verbatim>\<open>collect_points\<close> visit the entries in lexicographic
  order of their names, so the points come out of the loop in that order, and then sort the
  points once more: by thread count (Cortex-A7), by width and thread count (Cortex-A15). The
  sort is stable, so the result is ordered by that key and only the points of equal key are
  still in the lexicographic order of their directory names.
\<close>

theorem collect_points_order:
  "(collect_points r (Some entries) = Inr (pts, ws) \<longrightarrow>
      (\<exists>pre. sorted (map folder pre) \<and> pts = sort_key threads pre) \<and>
      sorted (map threads pts) \<and>
      (\<forall>k. sorted (map folder (filter (\<lambda>p. threads p = k) pts)))) \<and>
   (collect_points_A15 r (Some entries) mt = Inr (ptsW, wsW) \<longrightarrow>
      (\<exists>pre. sorted (map folder pre) \<and> ptsW = sort_key (\<lambda>p. (width p, threads p)) pre) \<and>
      sorted (map (\<lambda>p. (width p, threads p)) ptsW) \<and>
      (\<forall>k. sorted (map folder (filter (\<lambda>p. (width p, threads p) = k) ptsW))))"
proof (intro conjI impI)
  let ?pre = "points_of visit_speedup (sort_key name entries)"
  assume "collect_points r (Some entries) = Inr (pts, ws)"
  then have pts: "pts = sort_key threads ?pre" by (simp add: collect_points_Some)
  have s: "sorted (map folder ?pre)"
    using visit_speedup_folder sorted_sort_key_name by (rule points_of_sorted)
  show "\<exists>pre. sorted (map folder pre) \<and> pts = sort_key threads pre"
    using s pts by blast
  show "sorted (map threads pts)" by (simp add: pts)
  show "\<forall>k. sorted (map folder (filter (\<lambda>p. threads p = k) pts))"
    unfolding pts using sort_key_stable_sorted [OF s, where k = threads] by blast
next
  let ?pre = "points_of (visit_performance mt) (sort_key name entries)"
  assume "collect_points_A15 r (Some entries) mt = Inr (ptsW, wsW)"
  then have pts: "ptsW = sort_key (\<lambda>p. (width p, threads p)) ?pre"
    by (simp add: collect_points_A15_Some)
  have s: "sorted (map folder ?pre)"
    using visit_performance_folder sorted_sort_key_name by (rule points_of_sorted)
  show "\<exists>pre. sorted (map folder pre) \<and> ptsW = sort_key (\<lambda>p. (width p, threads p)) pre"
    using s pts by blast
  show "sorted (map (\<lambda>p. (width p, threads p)) ptsW)" by (simp add: pts)
  show "\<forall>k. sorted (map folder (filter (\<lambda>p. (width p, threads p) = k) ptsW))"
    unfolding pts
    using sort_key_stable_sorted [OF s, where k = "\<lambda>p. (width p, threads p)"] by blast
qed

lemmas scan_eval = at_end_def t_cpus_rule_def DIR_RE_speedup_def DIR_RE_cycles_def w_t_rule_def
  t_w_rule_def parse_dir_name_def visit_speedup_def visit_cycles_def visit_performance_def
  visit_ipc_def collect_points_def collect_data_def collect_points_A15_def collect_def
  config_dir_def PointA7_def PointA15_def

text \<open>
  Claim C7 as it is written fails: of the directories \<^verbatim>\<open>t10_a\<close> and \<^verbatim>\<open>t2_a\<close> the second is
  the larger name, and it comes first in the result.
\<close>

theorem collect_points_order_counterexample:
  "collect_points ''.'' (Some [config_dir ''t2_a'' None [''system.cpu0.numCycles 700''],
                              config_dir ''t10_a'' None [''system.cpu0.numCycles 300'']]) =
     Inr ([PointA7 2 700 ''t2_a'', PointA7 10 300 ''t10_a''], []) \<and>
   \<not> sorted [''t2_a'', ''t10_a'']"
  by (simp add: text_eval parse_eval scan_eval)

theorem collect_points_order_witness:
  "collect_points ''.'' (Some [config_dir ''t2_b'' None [''system.cpu0.numCycles 700''],
                              config_dir ''t10_a'' None [''system.cpu0.numCycles 300''],
                              config_dir ''t2_a'' None [''system.cpu0.numCycles 650'']]) =
     Inr ([PointA7 2 650 ''t2_a'', PointA7 2 700 ''t2_b'', PointA7 10 300 ''t10_a''], []) \<and>
   collect_points_A15 ''.'' (Some [config_dir ''w2_t4'' None [''system.cpu0.numCycles 700''],
                                  config_dir ''t4_w2_x'' None [''system.cpu0.numCycles 300''],
                                  config_dir ''w1_t8'' None [''system.cpu0.numCycles 650'']]) None =
     Inr ([PointA15 1 8 650 ''w1_t8'', PointA15 2 4 300 ''t4_w2_x'', PointA15 2 4 700 ''w2_t4''], []) \<and>
   sorted (map threads [PointA7 2 650 ''t2_a'', PointA7 2 700 ''t2_b'', PointA7 10 300 ''t10_a'']) \<and>
   sorted (map folder (filter (\<lambda>p. threads p = 2)
     [PointA7 2 650 ''t2_a'', PointA7 2 700 ''t2_b'', PointA7 10 300 ''t10_a''])) \<and>
   sorted (map folder (filter (\<lambda>p. (width p, threads p) = (2, 4))
     [PointA15 1 8 650 ''w1_t8'', PointA15 2 4 300 ''t4_w2_x'', PointA15 2 4 700 ''w2_t4'']))"
proof -
  let ?es = "[config_dir ''t2_b'' None [''system.cpu0.numCycles 700''],
              config_dir ''t10_a'' None [''system.cpu0.numCycles 300''],
              config_dir ''t2_a'' None [''system.cpu0.numCycles 650'']]"
  let ?ws = "[config_dir ''w2_t4'' None [''system.cpu0.numCycles 700''],
              config_dir ''t4_w2_x'' None [''system.cpu0.numCycles 300''],
              config_dir ''w1_t8'' None [''system.cpu0.numCycles 650'']]"
  let ?P = "[PointA7 2 650 ''t2_a'', PointA7 2 700 ''t2_b'', PointA7 10 300 ''t10_a'']"
  let ?Q = "[PointA15 1 8 650 ''w1_t8'', PointA15 2 4 300 ''t4_w2_x'', PointA15 2 4 700 ''w2_t4'']"
  have 1: "collect_points ''.'' (Some ?es) = Inr (?P, [])"
    by (simp add: text_eval parse_eval scan_eval)
  have 2: "collect_points_A15 ''.'' (Some ?ws) None = Inr (?Q, [])"
    by (simp add: text_eval parse_eval scan_eval)
  have 3: "sorted (map threads ?P) \<and> (\<forall>k. sorted (map folder (filter (\<lambda>p. threads p = k) ?P)))"
    using collect_points_order [where r = "''.''" and entries = ?es and pts = ?P and ws = "[]"] 1
    by blast
  have 4: "\<forall>k. sorted (map folder (filter (\<lambda>p. (width p, threads p) = k) ?Q))"
    using collect_points_order [where r = "''.''" and entries = ?ws and mt = None and ptsW = ?Q
        and wsW = "[]"] 2
    by blast
  show ?thesis using 1 2 3 4 by blast
qed

lemma excluded_points:
  assumes d: "distinct (map name entries)" and e: "e \<in> set entries"
    and nf: "\<forall>p. visit e \<noteq> Found p"
    and key: "\<And>e p. visit e = Found p \<Longrightarrow> key p = name e"
  shows "\<forall>p \<in> set (sort_key k (points_of visit (sort_key name entries))). key p \<noteq> name e"
proof
  fix p
  assume "p \<in> set (sort_key k (points_of visit (sort_key name entries)))"
  then obtain e' where e': "e' \<in> set entries" "visit e' = Found p"
    by (auto simp: set_points_of)
  show "key p \<noteq> name e"
  proof
    assume "key p = name e"
    then have "name e' = name e" using key [OF e'(2)] by simp
    then have "e' = e" using d e e'(1) by (meson distinct_map inj_onD)
    then show False using e'(2) nf by simp
  qed
qed

lemma warning_recorded:
  "e \<in> set entries \<Longrightarrow> visit e = Warn w \<Longrightarrow> w \<in> set (warnings_of visit (sort_key name entries))"
  by (auto simp: set_warnings_of)

lemma visit_performance_status:
  assumes "is_dir e" "parse_dir_name (name e) = Some (w, t)" "\<forall>m. mt = Some m \<longrightarrow> t \<le> m"
    "STATUS_txt e = Some content"
  shows "\<not> startswith (strip content) ''OK'' \<Longrightarrow>
           visit_performance mt e = Warn (name e @ '': ignore ('' @ strip content @ '')'')"
    and "startswith (strip content) ''OK'' \<Longrightarrow>
           visit_performance mt e = visit_performance mt (e\<lparr>STATUS_txt := None\<rparr>)"
  using assms
  by (auto simp: visit_performance_def split: option.splits sum.splits py_error.splits)

lemma visit_ipc_status:
  assumes "is_dir e" "w_t_rule (name e) = Some (w, t)" "\<forall>m. mt = Some m \<longrightarrow> int_of_digits t \<le> m"
    "STATUS_txt e = Some content"
  shows "\<not> startswith (strip content) ''OK'' \<Longrightarrow>
           visit_ipc sim mt e = Warn (sim @ ''/'' @ name e @ '': ignore ('' @ strip content @ '')'')"
    and "startswith (strip content) ''OK'' \<Longrightarrow>
           visit_ipc sim mt e = visit_ipc sim mt (e\<lparr>STATUS_txt := None\<rparr>)"
  using assms
  by (auto simp: visit_ipc_def split: option.splits sum.splits py_error.splits)

text \<open>
  Claim C8, as the code has it. Let a directory match the naming grammar and pass the
  maximum-thread filter, and let it hold a \<^verbatim>\<open>STATUS.txt\<close>. When the text of the marker,
  stripped of the blanks around it, does not begin with \<^verbatim>\<open>OK\<close>, the Cortex-A15 scanners
  (\<^verbatim>\<open>collect_points\<close> and \<^verbatim>\<open>collect\<close>) append the warning \<^verbatim>\<open><name>: ignore (<stripped text>)\<close>
  and no point of the result comes from that directory; when the stripped text begins with
  \<^verbatim>\<open>OK\<close>, the directory is treated exactly as a directory without marker.
\<close>

theorem status_marker_excludes:
  "(collect_points_A15 r (Some entries) mt = Inr (pts, ws) \<and> e \<in> set entries \<and> is_dir e \<and>
    parse_dir_name (name e) = Some (w, t) \<and> (\<forall>m. mt = Some m \<longrightarrow> t \<le> m) \<and>
    STATUS_txt e = Some content \<longrightarrow>
      (\<not> startswith (strip content) ''OK'' \<longrightarrow>
         name e @ '': ignore ('' @ strip content @ '')'' \<in> set ws \<and>
         (distinct (map name entries) \<longrightarrow> (\<forall>p \<in> set pts. folder p \<noteq> name e))) \<and>
      (startswith (strip content) ''OK'' \<longrightarrow>
         visit_performance mt e = visit_performance mt (e\<lparr>STATUS_txt := None\<rparr>))) \<and>
   (collect r' (Some entries) sim mt = Inr (ipts, iws) \<and> e \<in> set entries \<and> is_dir e \<and>
    w_t_rule (name e) = Some (wd, td) \<and> (\<forall>m. mt = Some m \<longrightarrow> int_of_digits td \<le> m) \<and>
    STATUS_txt e = Some content \<longrightarrow>
      (\<not> startswith (strip content) ''OK'' \<longrightarrow>
         sim @ ''/'' @ name e @ '': ignore ('' @ strip content @ '')'' \<in> set iws \<and>
         (distinct (map name entries) \<longrightarrow> (\<forall>p \<in> set ipts. ipc_folder p \<noteq> name e))) \<and>
      (startswith (strip content) ''OK'' \<longrightarrow>
         visit_ipc sim mt e = visit_ipc sim mt (e\<lparr>STATUS_txt := None\<rparr>)))"
proof (intro conjI impI)
  assume a: "collect_points_A15 r (Some entries) mt = Inr (pts, ws) \<and> e \<in> set entries \<and> is_dir e \<and>
    parse_dir_name (name e) = Some (w, t) \<and> (\<forall>m. mt = Some m \<longrightarrow> t \<le> m) \<and>
    STATUS_txt e = Some content"
  then have pts: "pts = sort_key (\<lambda>p. (width p, threads p))
        (points_of (visit_performance mt) (sort_key name entries))"
    and ws: "ws = warnings_of (visit_performance mt) (sort_key name entries)"
    by (simp_all add: collect_points_A15_Some)
  note v = visit_performance_status [of e w t mt content]
  {
    assume n: "\<not> startswith (strip content) ''OK''"
    then have w: "visit_performance mt e = Warn (name e @ '': ignore ('' @ strip content @ '')'')"
      using v(1) a by blast
    show "name e @ '': ignore ('' @ strip content @ '')'' \<in> set ws"
      unfolding ws using a w by (blast intro: warning_recorded)
    assume d: "distinct (map name entries)"
    show "\<forall>p \<in> set pts. folder p \<noteq> name e"
      unfolding pts
      by (rule excluded_points [OF d]) (use a w visit_performance_folder in auto)
  }
  {
    assume "startswith (strip content) ''OK''"
    then show "visit_performance mt e = visit_performance mt (e\<lparr>STATUS_txt := None\<rparr>)"
      using v(2) a by blast
  }
next
  assume a: "collect r' (Some entries) sim mt = Inr (ipts, iws) \<and> e \<in> set entries \<and> is_dir e \<and>
    w_t_rule (name e) = Some (wd, td) \<and> (\<forall>m. mt = Some m \<longrightarrow> int_of_digits td \<le> m) \<and>
    STATUS_txt e = Some content"
  then have pts: "ipts = sort_key (\<lambda>p. (ipc_width p, ipc_threads p))
        (points_of (visit_ipc sim mt) (sort_key name entries))"
    and ws: "iws = warnings_of (visit_ipc sim mt) (sort_key name entries)"
    by (simp_all add: collect_Some)
  note v = visit_ipc_status [of e wd td mt content sim]
  {
    assume n: "\<not> startswith (strip content) ''OK''"
    then have w: "visit_ipc sim mt e = Warn (sim @ ''/'' @ name e @ '': ignore ('' @ strip content @ '')'')"
      using v(1) a by blast
    show "sim @ ''/'' @ name e @ '': ignore ('' @ strip content @ '')'' \<in> set iws"
      unfolding ws using a w by (blast intro: warning_recorded)
    assume d: "distinct (map name entries)"
    show "\<forall>p \<in> set ipts. ipc_folder p \<noteq> name e"
      unfolding pts
      by (rule excluded_points [OF d]) (use a w visit_ipc_folder in auto)
  }
  {
    assume "startswith (strip content) ''OK''"
    then show "visit_ipc sim mt e = visit_ipc sim mt (e\<lparr>STATUS_txt := None\<rparr>)"
      using v(2) a by blast
  }
qed

text \<open>
  Claim C8 as it is written fails twice: the marker \<^verbatim>\<open>" OK"\<close> does not begin with \<^verbatim>\<open>OK\<close>, yet
  its directory is kept; and the warning for the marker \<^verbatim>\<open>"FAILED: oom\n"\<close> carries the
  stripped text, not the content of the file with its line feed.
\<close>

theorem status_marker_counterexample:
  "collect_points_A15 ''.''
     (Some [config_dir ''w1_t1'' (Some '' OK'') [''system.cpu0.numCycles 300''],
            config_dir ''w1_t2'' (Some (''FAILED: oom'' @ [CHR 0x0A])) [''system.cpu0.numCycles 200'']])
     None =
     Inr ([PointA15 1 1 300 ''w1_t1''], [''w1_t2: ignore (FAILED: oom)'']) \<and>
   \<not> startswith '' OK'' ''OK'' \<and>
   \<not> (\<exists>a b. ''w1_t2: ignore (FAILED: oom)'' = a @ (''FAILED: oom'' @ [CHR 0x0A]) @ b)"
proof (intro conjI)
  show "collect_points_A15 ''.''
     (Some [config_dir ''w1_t1'' (Some '' OK'') [''system.cpu0.numCycles 300''],
            config_dir ''w1_t2'' (Some (''FAILED: oom'' @ [CHR 0x0A])) [''system.cpu0.numCycles 200'']])
     None =
     Inr ([PointA15 1 1 300 ''w1_t1''], [''w1_t2: ignore (FAILED: oom)''])"
    by (simp add: text_eval parse_eval scan_eval)
  show "\<not> startswith '' OK'' ''OK''"
    by (simp add: startswith_def)
  show "\<not> (\<exists>a b. ''w1_t2: ignore (FAILED: oom)'' = a @ (''FAILED: oom'' @ [CHR 0x0A]) @ b)"
  proof
    assume "\<exists>a b. ''w1_t2: ignore (FAILED: oom)'' = a @ (''FAILED: oom'' @ [CHR 0x0A]) @ b"
    then obtain a b where "''w1_t2: ignore (FAILED: oom)'' = a @ (''FAILED: oom'' @ [CHR 0x0A]) @ b"
      by blast
    then have "set ''w1_t2: ignore (FAILED: oom)'' = set (a @ (''FAILED: oom'' @ [CHR 0x0A]) @ b)"
      by simp
    then have "CHR 0x0A \<in> set ''w1_t2: ignore (FAILED: oom)''"
      by simp
    then show False by simp
  qed
qed

theorem status_marker_excludes_witness:
  "collect_points_A15 ''.''
     (Some [config_dir ''w1_t1'' (Some (''OK'' @ [CHR 0x0A])) [''system.cpu0.numCycles 300''],
            config_dir ''w1_t2'' (Some (''FAILED: oom'' @ [CHR 0x0A])) [''system.cpu0.numCycles 200'']])
     (Some 4) =
     Inr ([PointA15 1 1 300 ''w1_t1''], [''w1_t2: ignore (FAILED: oom)'']) \<and>
   collect ''m16''
     (Some [config_dir ''w1_t1'' (Some (''OK'' @ [CHR 0x0A])) [''system.cpu0.numCycles 300''],
            config_dir ''w1_t2'' (Some (''FAILED: oom'' @ [CHR 0x0A])) [''system.cpu0.numCycles 200'']])
     ''m16'' (Some 4) =
     Inr ([], [''m16/w1_t1: Aucune ligne IPC dans w1_t1/stats.txt'',
               ''m16/w1_t2: ignore (FAILED: oom)'']) \<and>
   name (config_dir ''w1_t2'' (Some (''FAILED: oom'' @ [CHR 0x0A])) [''system.cpu0.numCycles 200'']) @
     '': ignore ('' @ strip (''FAILED: oom'' @ [CHR 0x0A]) @ '')'' \<in>
     set [''w1_t2: ignore (FAILED: oom)''] \<and>
   ''m16'' @ ''/'' @
     name (config_dir ''w1_t2'' (Some (''FAILED: oom'' @ [CHR 0x0A])) [''system.cpu0.numCycles 200'']) @
     '': ignore ('' @ strip (''FAILED: oom'' @ [CHR 0x0A]) @ '')'' \<in>
     set [''m16/w1_t1: Aucune ligne IPC dans w1_t1/stats.txt'', ''m16/w1_t2: ignore (FAILED: oom)'']"
proof -
  let ?a = "config_dir ''w1_t1'' (Some (''OK'' @ [CHR 0x0A])) [''system.cpu0.numCycles 300'']"
  let ?b = "config_dir ''w1_t2'' (Some (''FAILED: oom'' @ [CHR 0x0A])) [''system.cpu0.numCycles 200'']"
  have 1: "collect_points_A15 ''.'' (Some [?a, ?b]) (Some 4) =
      Inr ([PointA15 1 1 300 ''w1_t1''], [''w1_t2: ignore (FAILED: oom)''])"
    by (simp add: text_eval parse_eval scan_eval)
  have 2: "collect ''m16'' (Some [?a, ?b]) ''m16'' (Some 4) =
      Inr ([], [''m16/w1_t1: Aucune ligne IPC dans w1_t1/stats.txt'',
                ''m16/w1_t2: ignore (FAILED: oom)''])"
    by (simp add: text_eval parse_eval scan_eval)
  have 3: "?b \<in> set [?a, ?b]" "is_dir ?b" "parse_dir_name (name ?b) = Some (1, 2)"
    "w_t_rule (name ?b) = Some (''1'', ''2'')" "int_of_digits ''2'' \<le> 4"
    "STATUS_txt ?b = Some (''FAILED: oom'' @ [CHR 0x0A])"
    "\<not> startswith (strip (''FAILED: oom'' @ [CHR 0x0A])) ''OK''"
    by (simp_all add: text_eval scan_eval)
  note t = status_marker_excludes [where r = "''.''" and entries = "[?a, ?b]" and mt = "Some 4"
      and e = ?b and w = 1 and t = 2 and content = "''FAILED: oom'' @ [CHR 0x0A]"
      and pts = "[PointA15 1 1 300 ''w1_t1'']" and ws = "[''w1_t2: ignore (FAILED: oom)'']"
      and r' = "''m16''" and sim = "''m16''" and wd = "''1''" and td = "''2''" and ipts = "[]"
      and iws = "[''m16/w1_t1: Aucune ligne IPC dans w1_t1/stats.txt'',
                 ''m16/w1_t2: ignore (FAILED: oom)'']"]
  have 4: "name ?b @ '': ignore ('' @ strip (''FAILED: oom'' @ [CHR 0x0A]) @ '')'' \<in>
      set [''w1_t2: ignore (FAILED: oom)'']"
    using t 1 3 by simp
  have 5: "''m16'' @ ''/'' @ name ?b @ '': ignore ('' @ strip (''FAILED: oom'' @ [CHR 0x0A]) @ '')'' \<in>
      set [''m16/w1_t1: Aucune ligne IPC dans w1_t1/stats.txt'', ''m16/w1_t2: ignore (FAILED: oom)'']"
    using t 2 3 by simp
  show ?thesis using 1 2 4 5 by blast
qed






lemma digits_then:
  assumes "\<forall>c \<in> set ds. is_digit c" "\<not> is_digit x"
  shows "takeWhile is_digit (ds @ x # r) = ds" "dropWhile is_digit (ds @ x # r) = x # r"
  using assms by (simp_all add: takeWhile_append2 dropWhile_append2)

lemma t_cpus_rule_cpus:
  assumes ts: "\<forall>c \<in> set ts. is_digit c" "ts \<noteq> []" and cs: "\<forall>c \<in> set cs. is_digit c" "cs \<noteq> []"
    and tail: "tail (CHR ''_'' # rest)"
  shows "t_cpus_rule tail (''t'' @ ts @ ''_cpus'' @ cs @ ''_'' @ rest) = Some (ts, Some cs)"
proof -
  have u: "\<not> is_digit CHR ''_''" by (simp add: is_digit_def)
  show ?thesis
    using ts cs tail
    by (simp add: t_cpus_rule_def literal_def startswith_def Let_def
        digits_then [OF ts(1) u] digits_then [OF cs(1) u])
qed

lemma t_cpus_rule_plain:
  assumes ts: "\<forall>c \<in> set ts. is_digit c" "ts \<noteq> []" and no: "\<not> startswith rest ''cpus''"
    and tail: "tail (CHR ''_'' # rest)"
  shows "t_cpus_rule tail (''t'' @ ts @ ''_'' @ rest) = Some (ts, None)"
proof -
  have u: "\<not> is_digit CHR ''_''" by (simp add: is_digit_def)
  show ?thesis
    using ts no tail
    by (simp add: t_cpus_rule_def literal_def startswith_def Let_def digits_then [OF ts(1) u])
qed

lemma produced_by:
  assumes d: "distinct (map name entries)" and e: "e \<in> set entries"
    and p: "p \<in> set (sort_key k (points_of visit (sort_key name entries)))"
    and kp: "key p = name e"
    and key: "\<And>e p. visit e = Found p \<Longrightarrow> key p = name e"
  shows "visit e = Found p"
proof -
  from p obtain e' where e': "e' \<in> set entries" "visit e' = Found p"
    by (auto simp: set_points_of)
  then have "name e' = name e" using key [OF e'(2)] kp by simp
  then have "e' = e" using d e e'(1) by (meson distinct_map inj_onD)
  then show ?thesis using e'(2) by simp
qed

lemma visit_speedup_threads:
  "visit_speedup e = Found p \<Longrightarrow> DIR_RE_speedup (name e) = Some (ts, c) \<Longrightarrow>
     threads p = int_of_digits (case c of Some x \<Rightarrow> x | None \<Rightarrow> ts)"
  by (auto simp: visit_speedup_def Let_def PointA7_def
      split: if_splits option.splits sum.splits py_error.splits)

lemma visit_cycles_cpus:
  "visit_cycles e = Found p \<Longrightarrow> DIR_RE_cycles (name e) = Some (ts, c) \<Longrightarrow>
     fst p = int_of_digits (case c of Some x \<Rightarrow> x | None \<Rightarrow> ts)"
  by (auto simp: visit_cycles_def Let_def
      split: if_splits option.splits sum.splits py_error.splits prod.splits)

lemma coordinate_of_rule:
  assumes s: "DIR_RE_speedup (name e) = Some (ts, c)" and y: "DIR_RE_cycles (name e) = Some (ts, c)"
  shows "(\<forall>p. visit_speedup e = Found p \<longrightarrow>
            threads p = int_of_digits (case c of Some x \<Rightarrow> x | None \<Rightarrow> ts)) \<and>
         (\<forall>p. visit_cycles e = Found p \<longrightarrow>
            fst p = int_of_digits (case c of Some x \<Rightarrow> x | None \<Rightarrow> ts)) \<and>
         (distinct (map name entries) \<and> e \<in> set entries \<longrightarrow>
            (\<forall>pts ws. collect_points r (Some entries) = Inr (pts, ws) \<longrightarrow>
               (\<forall>p \<in> set pts. folder p = name e \<longrightarrow>
                  threads p = int_of_digits (case c of Some x \<Rightarrow> x | None \<Rightarrow> ts))) \<and>
            (\<forall>pts ws. collect_data r (Some entries) = Inr (pts, ws) \<longrightarrow>
               (\<forall>p \<in> set pts. snd (snd p) = name e \<longrightarrow>
                  fst p = int_of_digits (case c of Some x \<Rightarrow> x | None \<Rightarrow> ts))))"
proof (intro conjI impI allI ballI)
  fix p assume "visit_speedup e = Found p"
  then show "threads p = int_of_digits (case c of Some x \<Rightarrow> x | None \<Rightarrow> ts)"
    using s by (rule visit_speedup_threads)
next
  fix p assume "visit_cycles e = Found p"
  then show "fst p = int_of_digits (case c of Some x \<Rightarrow> x | None \<Rightarrow> ts)"
    using y by (rule visit_cycles_cpus)
next
  fix pts ws p
  assume de: "distinct (map name entries) \<and> e \<in> set entries"
    and c: "collect_points r (Some entries) = Inr (pts, ws)"
    and p: "p \<in> set pts" and f: "folder p = name e"
  from c have "pts = sort_key threads (points_of visit_speedup (sort_key name entries))"
    by (simp add: collect_points_Some)
  then have "visit_speedup e = Found p"
    using produced_by [where visit = visit_speedup and key = folder and k = threads
        and entries = entries and e = e and p = p] de p f visit_speedup_folder
    by blast
  then show "threads p = int_of_digits (case c of Some x \<Rightarrow> x | None \<Rightarrow> ts)"
    using s by (rule visit_speedup_threads)
next
  fix pts ws p
  assume de: "distinct (map name entries) \<and> e \<in> set entries"
    and c: "collect_data r (Some entries) = Inr (pts, ws)"
    and p: "p \<in> set pts" and f: "snd (snd p) = name e"
  from c have "pts = sort_key fst (points_of visit_cycles (sort_key name entries))"
    by (simp add: collect_data_Some)
  then have "visit_cycles e = Found p"
    using produced_by [where visit = visit_cycles and key = "\<lambda>p. snd (snd p)" and k = fst
        and entries = entries and e = e and p = p] de p f visit_cycles_folder
    by blast
  then show "fst p = int_of_digits (case c of Some x \<Rightarrow> x | None \<Rightarrow> ts)"
    using y by (rule visit_cycles_cpus)
qed

text \<open>
  Claim C10. For a directory named \<^verbatim>\<open>t<threads>_cpus<n>_...\<close> the rules of
  \<^verbatim>\<open>plot_speedup_cortexA7.py\<close> and \<^verbatim>\<open>plot_cycles_cortexA7.py\<close> capture both numbers and the
  point of that directory has the thread coordinate \<open>n\<close>; for a directory named
  \<^verbatim>\<open>t<threads>_...\<close> with no \<^verbatim>\<open>cpus\<close> after the underscore the coordinate is the leading
  number. This holds for what one iteration yields and for the points that \<^verbatim>\<open>collect_points\<close>
  and \<^verbatim>\<open>collect_data\<close> return.
\<close>

theorem cpus_value_is_thread_coordinate:
  "((\<forall>c \<in> set ts. is_digit c) \<and> ts \<noteq> [] \<and> (\<forall>c \<in> set cs. is_digit c) \<and> cs \<noteq> [] \<and>
    name e = ''t'' @ ts @ ''_cpus'' @ cs @ ''_'' @ rest \<longrightarrow>
      DIR_RE_speedup (name e) = Some (ts, Some cs) \<and>
      DIR_RE_cycles (name e) = Some (ts, Some cs) \<and>
      (\<forall>p. visit_speedup e = Found p \<longrightarrow> threads p = int_of_digits cs) \<and>
      (\<forall>p. visit_cycles e = Found p \<longrightarrow> fst p = int_of_digits cs) \<and>
      (distinct (map name entries) \<and> e \<in> set entries \<longrightarrow>
         (\<forall>pts ws. collect_points r (Some entries) = Inr (pts, ws) \<longrightarrow>
            (\<forall>p \<in> set pts. folder p = name e \<longrightarrow> threads p = int_of_digits cs)) \<and>
         (\<forall>pts ws. collect_data r (Some entries) = Inr (pts, ws) \<longrightarrow>
            (\<forall>p \<in> set pts. snd (snd p) = name e \<longrightarrow> fst p = int_of_digits cs)))) \<and>
   ((\<forall>c \<in> set ts. is_digit c) \<and> ts \<noteq> [] \<and> \<not> startswith rest ''cpus'' \<and>
    name e = ''t'' @ ts @ ''_'' @ rest \<longrightarrow>
      DIR_RE_speedup (name e) = Some (ts, None) \<and>
      DIR_RE_cycles (name e) = Some (ts, None) \<and>
      (\<forall>p. visit_speedup e = Found p \<longrightarrow> threads p = int_of_digits ts) \<and>
      (\<forall>p. visit_cycles e = Found p \<longrightarrow> fst p = int_of_digits ts) \<and>
      (distinct (map name entries) \<and> e \<in> set entries \<longrightarrow>
         (\<forall>pts ws. collect_points r (Some entries) = Inr (pts, ws) \<longrightarrow>
            (\<forall>p \<in> set pts. folder p = name e \<longrightarrow> threads p = int_of_digits ts)) \<and>
         (\<forall>pts ws. collect_data r (Some entries) = Inr (pts, ws) \<longrightarrow>
            (\<forall>p \<in> set pts. snd (snd p) = name e \<longrightarrow> fst p = int_of_digits ts))))"
proof (rule conjI; rule impI)
  assume a: "(\<forall>c \<in> set ts. is_digit c) \<and> ts \<noteq> [] \<and> (\<forall>c \<in> set cs. is_digit c) \<and> cs \<noteq> [] \<and>
    name e = ''t'' @ ts @ ''_cpus'' @ cs @ ''_'' @ rest"
  have s: "DIR_RE_speedup (name e) = Some (ts, Some cs)"
    unfolding DIR_RE_speedup_def using a
    by (simp add: t_cpus_rule_cpus startswith_def del: append.simps)
  have y: "DIR_RE_cycles (name e) = Some (ts, Some cs)"
    unfolding DIR_RE_cycles_def using a
    by (simp add: t_cpus_rule_cpus startswith_def del: append.simps)
  show "DIR_RE_speedup (name e) = Some (ts, Some cs) \<and>
      DIR_RE_cycles (name e) = Some (ts, Some cs) \<and>
      (\<forall>p. visit_speedup e = Found p \<longrightarrow> threads p = int_of_digits cs) \<and>
      (\<forall>p. visit_cycles e = Found p \<longrightarrow> fst p = int_of_digits cs) \<and>
      (distinct (map name entries) \<and> e \<in> set entries \<longrightarrow>
         (\<forall>pts ws. collect_points r (Some entries) = Inr (pts, ws) \<longrightarrow>
            (\<forall>p \<in> set pts. folder p = name e \<longrightarrow> threads p = int_of_digits cs)) \<and>
         (\<forall>pts ws. collect_data r (Some entries) = Inr (pts, ws) \<longrightarrow>
            (\<forall>p \<in> set pts. snd (snd p) = name e \<longrightarrow> fst p = int_of_digits cs)))"
    using s y coordinate_of_rule [OF s y, of entries r] by simp
next
  assume a: "(\<forall>c \<in> set ts. is_digit c) \<and> ts \<noteq> [] \<and> \<not> startswith rest ''cpus'' \<and>
    name e = ''t'' @ ts @ ''_'' @ rest"
  have s: "DIR_RE_speedup (name e) = Some (ts, None)"
    unfolding DIR_RE_speedup_def using a
    by (simp add: t_cpus_rule_plain startswith_def del: append.simps)
  have y: "DIR_RE_cycles (name e) = Some (ts, None)"
    unfolding DIR_RE_cycles_def using a
    by (simp add: t_cpus_rule_plain startswith_def del: append.simps)
  show "DIR_RE_speedup (name e) = Some (ts, None) \<and>
      DIR_RE_cycles (name e) = Some (ts, None) \<and>
      (\<forall>p. visit_speedup e = Found p \<longrightarrow> threads p = int_of_digits ts) \<and>
      (\<forall>p. visit_cycles e = Found p \<longrightarrow> fst p = int_of_digits ts) \<and>
      (distinct (map name entries) \<and> e \<in> set entries \<longrightarrow>
         (\<forall>pts ws. collect_points r (Some entries) = Inr (pts, ws) \<longrightarrow>
            (\<forall>p \<in> set pts. folder p = name e \<longrightarrow> threads p = int_of_digits ts)) \<and>
         (\<forall>pts ws. collect_data r (Some entries) = Inr (pts, ws) \<longrightarrow>
            (\<forall>p \<in> set pts. snd (snd p) = name e \<longrightarrow> fst p = int_of_digits ts)))"
    using s y coordinate_of_rule [OF s y, of entries r] by simp
qed

theorem cpus_value_is_thread_coordinate_witness:
  "collect_points ''.''
     (Some [config_dir ''t4_cpus8_run'' None [''system.cpu0.numCycles 300''],
            config_dir ''t2_run'' None [''system.cpu0.numCycles 700'']]) =
     Inr ([PointA7 2 700 ''t2_run'', PointA7 8 300 ''t4_cpus8_run''], []) \<and>
   collect_data ''.''
     (Some [config_dir ''t4_cpus8_run'' None [''system.cpu0.numCycles 300''],
            config_dir ''t2_run'' None [''system.cpu0.numCycles 700'']]) =
     Inr ([(2, 700, ''t2_run''), (8, 300, ''t4_cpus8_run'')], []) \<and>
   DIR_RE_speedup (name (config_dir ''t4_cpus8_run'' None [''system.cpu0.numCycles 300''])) =
     Some (''4'', Some ''8'') \<and>
   DIR_RE_cycles (name (config_dir ''t2_run'' None [''system.cpu0.numCycles 700''])) =
     Some (''2'', None) \<and>
   threads (PointA7 8 300 ''t4_cpus8_run'') = int_of_digits ''8'' \<and>
   threads (PointA7 2 700 ''t2_run'') = int_of_digits ''2''"
proof -
  let ?a = "config_dir ''t4_cpus8_run'' None [''system.cpu0.numCycles 300'']"
  let ?b = "config_dir ''t2_run'' None [''system.cpu0.numCycles 700'']"
  have 1: "collect_points ''.'' (Some [?a, ?b]) =
      Inr ([PointA7 2 700 ''t2_run'', PointA7 8 300 ''t4_cpus8_run''], [])"
    by (simp add: text_eval parse_eval scan_eval)
  have 2: "collect_data ''.'' (Some [?a, ?b]) =
      Inr ([(2, 700, ''t2_run''), (8, 300, ''t4_cpus8_run'')], [])"
    by (simp add: text_eval parse_eval scan_eval)
  have ha: "(\<forall>c \<in> set ''4''. is_digit c) \<and> ''4'' \<noteq> [] \<and> (\<forall>c \<in> set ''8''. is_digit c) \<and> ''8'' \<noteq> [] \<and>
      name ?a = ''t'' @ ''4'' @ ''_cpus'' @ ''8'' @ ''_'' @ ''run''"
    by (simp add: is_digit_def config_dir_def)
  have hb: "(\<forall>c \<in> set ''2''. is_digit c) \<and> ''2'' \<noteq> [] \<and> \<not> startswith ''run'' ''cpus'' \<and>
      name ?b = ''t'' @ ''2'' @ ''_'' @ ''run''"
    by (simp add: is_digit_def config_dir_def startswith_def)
  have d: "distinct (map name [?a, ?b]) \<and> ?a \<in> set [?a, ?b] \<and> ?b \<in> set [?a, ?b]"
    by (simp add: config_dir_def)
  note ta = cpus_value_is_thread_coordinate [where e = ?a and ts = "''4''" and cs = "''8''"
      and rest = "''run''" and entries = "[?a, ?b]" and r = "''.''", THEN conjunct1, rule_format, OF ha]
  note tb = cpus_value_is_thread_coordinate [where e = ?b and ts = "''2''"
      and rest = "''run''" and entries = "[?a, ?b]" and r = "''.''", THEN conjunct2, rule_format, OF hb]
  have 3: "DIR_RE_speedup (name ?a) = Some (''4'', Some ''8'')" using ta by blast
  have 4: "DIR_RE_cycles (name ?b) = Some (''2'', None)" using tb by blast
  have 5: "\<forall>p \<in> set [PointA7 2 700 ''t2_run'', PointA7 8 300 ''t4_cpus8_run''].
      folder p = name ?a \<longrightarrow> threads p = int_of_digits ''8''"
    using ta d 1 by blast
  have 6: "\<forall>p \<in> set [PointA7 2 700 ''t2_run'', PointA7 8 300 ''t4_cpus8_run''].
      folder p = name ?b \<longrightarrow> threads p = int_of_digits ''2''"
    using tb d 1 by blast
  have 7: "threads (PointA7 8 300 ''t4_cpus8_run'') = int_of_digits ''8''"
    using 5 by (simp add: config_dir_def PointA7_def)
  have 8: "threads (PointA7 2 700 ''t2_run'') = int_of_digits ''2''"
    using 6 by (simp add: config_dir_def PointA7_def)
  show ?thesis using 1 2 3 4 7 8 by blast
qed

end
